theory Spec2Isabelle
  imports Complex_Main
begin

section \<open>Data model\<close>

text \<open>
  The TypeScript source works on \<^verbatim>\<open>number\<close>, that is on IEEE doubles. Coordinates,
  extents and the grid size are modelled as reals. Two routines return something that
  depends on how the doubles are rounded: the index range of \<open>markRectangleInGrid\<close>
  (a floor and a ceiling of quotients) and the tolerance test of \<open>arePointsCollinear\<close>.
  In these two every arithmetic operation is followed by \<open>fl\<close>, the rounding to the
  nearest double defined below; the other routines compute exactly, and what is stated
  about them below holds with the rounding as well as without it. Grid cells, which
  the source obtains with \<^verbatim>\<open>Math.floor\<close>, are pairs of integers; the scores of the
  search, which start at 0 and grow by 1, are natural numbers; the pin counters are
  integers. The record fields \<^verbatim>\<open>x\<close> and \<^verbatim>\<open>y\<close> of the source carry a prefix here, so
  that \<open>x\<close> and \<open>y\<close> stay free for variables.
\<close>

subsection \<open>Rounding to the nearest double\<close>

text \<open>
  \<open>fl x\<close> is the double nearest to \<open>x\<close>, ties to the even significand: with
  \<open>2^e \<le> |x| < 2^(e+1)\<close> the doubles around \<open>x\<close> are the multiples of \<open>2^(e-52)\<close>, and
  below \<open>2^(-1022)\<close> (the subnormal range) the multiples of \<open>2^(-1074)\<close>. Overflow to
  \<^verbatim>\<open>Infinity\<close> is not modelled: the statements that depend on \<open>fl\<close> bound their inputs.
  \<open>bit_length n\<close> is the number of binary digits of a positive \<open>n\<close>.
\<close>

function bit_length :: "int \<Rightarrow> int" where
  "bit_length n = (if n \<le> 0 then 0 else 1 + bit_length (n div 2))"
  by pat_completeness auto
termination
  by (relation "measure nat") auto

declare bit_length.simps [simp del]

definition exponent_of :: "real \<Rightarrow> int" where
  "exponent_of x =
     (if 1 \<le> x then bit_length \<lfloor>x\<rfloor> - 1 else - bit_length (\<lceil>1 / x\<rceil> - 1))"

definition round_half_even :: "real \<Rightarrow> int" where
  "round_half_even m =
     (let f = \<lfloor>m\<rfloor>; d = m - of_int f
      in if d < 1 / 2 then f else if 1 / 2 < d then f + 1 else if even f then f else f + 1)"

definition fl :: "real \<Rightarrow> real" where
  "fl x =
     (if x = 0 then 0
      else
        (let e = max (exponent_of \<bar>x\<bar>) (- 1022);
             u = 2 powi (e - 52)
         in sgn x * (of_int (round_half_even (\<bar>x\<bar> / u)) * u)))"

subsection \<open>Records of the source\<close>

datatype PinType = INPUT | OUTPUT | POWER | GROUND | NULL

record Point =
  pt_x :: real
  pt_y :: real

record Rectangle =
  rect_x :: real
  rect_y :: real
  width :: real
  height :: real

type_synonym cell = "int \<times> int"

record GridNode =
  point :: cell
  gScore :: nat
  fScore :: nat
  parent :: "cell option"

type_synonym pin_ref = nat
type_synonym wire_ref = nat
type_synonym component_ref = nat

record Pin =
  pin_name :: string
  pin_x :: real
  pin_y :: real
  pin_type :: PinType
  component :: "component_ref option"
  convergenceCount :: int
  divergenceCount :: int

record Wire =
  enterPin :: pin_ref
  exitPin :: pin_ref
  wire_name :: string
  bendPoints :: "Point list"
  routedPath :: "Point list"

text \<open>
  Pins and wires are objects that the source shares by reference (a wire holds its two
  pins, the router compares wires with \<^verbatim>\<open>!==\<close>), so they live in a store indexed by
  references.
\<close>

record heap =
  pins :: "pin_ref \<Rightarrow> Pin"
  wires :: "wire_ref \<Rightarrow> Wire"

datatype js_error = Error string | RangeError

definition getPosition :: "Pin \<Rightarrow> Point" where
  "getPosition p = \<lparr>pt_x = pin_x p, pt_y = pin_y p\<rparr>"

section \<open>Wire construction\<close>

text \<open>
  \<^verbatim>\<open>new Wire(enterPin, exitPin, name, bendPoints)\<close>. A missing pin (\<^verbatim>\<open>null\<close> or
  \<^verbatim>\<open>undefined\<close>) is \<open>None\<close>; \<open>this\<close> is the reference of the object being constructed.
  The result is the store after the call and either the error thrown or the new wire's
  reference.
\<close>

definition Wire_constructor ::
  "heap \<Rightarrow> wire_ref \<Rightarrow> pin_ref option \<Rightarrow> pin_ref option \<Rightarrow> string \<Rightarrow> Point list
    \<Rightarrow> heap \<times> (js_error + wire_ref)" where
  "Wire_constructor h this enterPin_arg exitPin_arg name_arg bendPoints_arg =
     (case (enterPin_arg, exitPin_arg) of
        (Some e, Some x) \<Rightarrow>
          (let h1 = h\<lparr>wires := (wires h)(this :=
                      \<lparr>enterPin = e, exitPin = x, wire_name = name_arg,
                       bendPoints = bendPoints_arg, routedPath = []\<rparr>)\<rparr>;
               h2 = h1\<lparr>pins := (pins h1)(e :=
                      (pins h1 e)\<lparr>divergenceCount := divergenceCount (pins h1 e) + 1\<rparr>)\<rparr>;
               h3 = h2\<lparr>pins := (pins h2)(x :=
                      (pins h2 x)\<lparr>convergenceCount := convergenceCount (pins h2 x) + 1\<rparr>)\<rparr>
           in (h3, Inr this))
      | _ \<Rightarrow> (h, Inl (Error ''Both enter and exit pins must be provided'')))"

section \<open>Grid rasterizer\<close>

record GridBounds =
  minX :: real
  minY :: real
  bounds_width :: real
  bounds_height :: real

text \<open>\<^verbatim>\<open>Math.min(a, ...rest)\<close> and \<^verbatim>\<open>Math.max(a, ...rest)\<close> on a non-empty argument list.\<close>

definition math_min :: "real \<Rightarrow> real list \<Rightarrow> real" where
  "math_min a rest = fold min rest a"

definition math_max :: "real \<Rightarrow> real list \<Rightarrow> real" where
  "math_max a rest = fold max rest a"

definition calculateGridBounds :: "Rectangle list \<Rightarrow> Point \<Rightarrow> Point \<Rightarrow> GridBounds" where
  "calculateGridBounds obstacles start end_pt =
     (let restX = pt_x end_pt # concat (map (\<lambda>ob. [rect_x ob, rect_x ob + width ob]) obstacles);
          restY = pt_y end_pt # concat (map (\<lambda>ob. [rect_y ob, rect_y ob + height ob]) obstacles);
          minX = math_min (pt_x start) restX - 50;
          minY = math_min (pt_y start) restY - 50;
          maxX = math_max (pt_x start) restX + 50;
          maxY = math_max (pt_y start) restY + 50
      in \<lparr>minX = minX, minY = minY, bounds_width = maxX - minX, bounds_height = maxY - minY\<rparr>)"

text \<open>
  \<^verbatim>\<open>grid[0].length\<close>. The source reads it only behind a test that the grid has a row
  (\<^verbatim>\<open>y < grid.length\<close> for some \<^verbatim>\<open>y \<ge> 0\<close>), so the value on the empty grid is never used.
\<close>

definition grid_width :: "bool list list \<Rightarrow> nat" where
  "grid_width grid = (case grid of [] \<Rightarrow> 0 | row # _ \<Rightarrow> length row)"

text \<open>
  \<^verbatim>\<open>grid[y][x] = false\<close>. Every grid the router builds is rectangular, and the callers
  guard \<open>y < grid.length\<close> and \<open>x < grid[0].length\<close>, so the write is always in range.
\<close>

definition block_cell :: "bool list list \<Rightarrow> nat \<Rightarrow> nat \<Rightarrow> bool list list" where
  "block_cell grid gy gx = grid[gy := (grid ! gy)[gx := False]]"

definition markRectangleInGrid ::
  "bool list list \<Rightarrow> Rectangle \<Rightarrow> real \<Rightarrow> real \<Rightarrow> real \<Rightarrow> bool list list" where
  "markRectangleInGrid grid rect gridSize offsetX offsetY =
     (let startX = \<lfloor>fl (fl (rect_x rect - offsetX) / gridSize)\<rfloor>;
          startY = \<lfloor>fl (fl (rect_y rect - offsetY) / gridSize)\<rfloor>;
          endX = \<lceil>fl (fl (fl (rect_x rect + width rect) - offsetX) / gridSize)\<rceil>;
          endY = \<lceil>fl (fl (fl (rect_y rect + height rect) - offsetY) / gridSize)\<rceil>
      in foldl (\<lambda>g gy.
            foldl (\<lambda>g' gx. block_cell g' gy gx) g
              [nat (max 0 startX) ..< nat (min (int (grid_width g)) endX)])
           grid
           [nat (max 0 startY) ..< nat (min (int (length grid)) endY)])"

text \<open>
  The interpolation parameter \<^verbatim>\<open>steps === 0 ? 0 : step / steps\<close>. Division in
  JavaScript does not throw; \<^verbatim>\<open>0 / 0\<close> is \<^verbatim>\<open>NaN\<close>. \<open>js_div\<close> makes the zero divisor
  visible as \<open>None\<close>, and the sampling loops below treat \<open>None\<close> as JavaScript treats
  \<^verbatim>\<open>NaN\<close>: every comparison with it is false.
\<close>

definition js_div :: "real \<Rightarrow> real \<Rightarrow> real option" where
  "js_div a b = (if b = 0 then None else Some (a / b))"

definition interpolation_t :: "real \<Rightarrow> nat \<Rightarrow> real option" where
  "interpolation_t steps step = (if steps = 0 then Some 0 else js_div (real step) steps)"

definition interpolate :: "Point \<Rightarrow> Point \<Rightarrow> real option \<Rightarrow> Point option" where
  "interpolate p1 p2 t_opt =
     map_option (\<lambda>t. \<lparr>pt_x = pt_x p1 + (pt_x p2 - pt_x p1) * t,
                      pt_y = pt_y p1 + (pt_y p2 - pt_y p1) * t\<rparr>) t_opt"

definition segment_steps :: "Point \<Rightarrow> Point \<Rightarrow> real" where
  "segment_steps p1 p2 = max \<bar>pt_x p2 - pt_x p1\<bar> \<bar>pt_y p2 - pt_y p1\<bar>"

text \<open>The values of the loop counter in \<^verbatim>\<open>for (step = 0; step <= steps; step++)\<close>.\<close>

definition step_range :: "real \<Rightarrow> nat list" where
  "step_range steps = (if steps < 0 then [] else [0 ..< Suc (nat \<lfloor>steps\<rfloor>)])"

definition tolerance :: int where
  "tolerance = 2"

definition mark_around :: "bool list list \<Rightarrow> int \<Rightarrow> int \<Rightarrow> bool list list" where
  "mark_around grid gridX gridY =
     foldl (\<lambda>g dy.
        foldl (\<lambda>g' dx.
           (let gx = gridX + dx; gy = gridY + dy
            in if gx \<ge> 0 \<and> gy \<ge> 0 \<and> gy < int (length g') \<and> gx < int (grid_width g')
               then block_cell g' (nat gy) (nat gx) else g'))
          g [- tolerance .. tolerance])
       grid [- tolerance .. tolerance]"

definition mark_sample ::
  "real \<Rightarrow> real \<Rightarrow> real \<Rightarrow> bool list list \<Rightarrow> Point option \<Rightarrow> bool list list" where
  "mark_sample gridSize offsetX offsetY grid sample =
     (case sample of
        None \<Rightarrow> grid
      | Some p \<Rightarrow>
          mark_around grid \<lfloor>(pt_x p - offsetX) / gridSize\<rfloor> \<lfloor>(pt_y p - offsetY) / gridSize\<rfloor>)"

definition wire_segment_samples :: "Point \<Rightarrow> Point \<Rightarrow> Point option list" where
  "wire_segment_samples p1 p2 =
     (let steps = segment_steps p1 p2
      in map (\<lambda>step. interpolate p1 p2 (interpolation_t steps step)) (step_range steps))"

definition markWirePathInGrid ::
  "bool list list \<Rightarrow> Point list \<Rightarrow> real \<Rightarrow> real \<Rightarrow> real \<Rightarrow> bool list list" where
  "markWirePathInGrid grid path gridSize offsetX offsetY =
     foldl (\<lambda>g i.
        foldl (mark_sample gridSize offsetX offsetY) g
          (wire_segment_samples (path ! i) (path ! Suc i)))
       grid [0 ..< length path - 1]"

text \<open>
  \<^verbatim>\<open>Array(n)\<close> throws a RangeError unless \<open>n\<close> is an integer in \<open>[0, 2^32 - 1]\<close>;
  \<^verbatim>\<open>Math.ceil(w / 0)\<close> is infinite for the positive \<open>w\<close> that reaches it here.
\<close>

definition valid_array_length :: "int \<Rightarrow> bool" where
  "valid_array_length n \<longleftrightarrow> 0 \<le> n \<and> n \<le> 2 ^ 32 - 1"

definition createObstacleGrid ::
  "heap \<Rightarrow> wire_ref \<Rightarrow> Rectangle list \<Rightarrow> wire_ref list \<Rightarrow> real \<Rightarrow> Point \<Rightarrow> Point
     \<Rightarrow> js_error + bool list list" where
  "createObstacleGrid h this obstacles existingWires gridSize start end_pt =
     (let bounds = calculateGridBounds obstacles start end_pt
      in if gridSize = 0 then Inl RangeError
         else
           (let gridWidth = \<lceil>bounds_width bounds / gridSize\<rceil>;
                gridHeight = \<lceil>bounds_height bounds / gridSize\<rceil>
            in if \<not> valid_array_length gridHeight then Inl RangeError
               else if 0 < gridHeight \<and> \<not> valid_array_length gridWidth then Inl RangeError
               else
                 (let grid0 = replicate (nat gridHeight) (replicate (nat gridWidth) True);
                      grid1 = foldl (\<lambda>g obstacle.
                                markRectangleInGrid g obstacle gridSize (minX bounds) (minY bounds))
                              grid0 obstacles;
                      others = filter (\<lambda>w. w \<noteq> this \<and> length (routedPath (wires h w)) > 0)
                                 existingWires
                  in Inr (foldl (\<lambda>g w.
                            markWirePathInGrid g (routedPath (wires h w)) gridSize
                              (minX bounds) (minY bounds))
                          grid1 others))))"

section \<open>Grid pathfinder\<close>

record astar_state =
  openSet :: "GridNode list"
  closedSet :: "cell set"
  gScores :: "cell \<rightharpoonup> nat"
  parents :: "cell \<rightharpoonup> cell option"

definition heuristic :: "cell \<Rightarrow> cell \<Rightarrow> nat" where
  "heuristic a b = nat (\<bar>fst a - fst b\<bar> + \<bar>snd a - snd b\<bar>)"

text \<open>
  \<^verbatim>\<open>grid[y][x]\<close> behind the bounds test of the search; a read outside a row gives
  \<^verbatim>\<open>undefined\<close>, which the source's \<^verbatim>\<open>!grid[y][x]\<close> treats as blocked.
\<close>

definition grid_at :: "bool list list \<Rightarrow> int \<Rightarrow> int \<Rightarrow> bool" where
  "grid_at grid gx gy \<longleftrightarrow>
     0 \<le> gy \<and> 0 \<le> gx \<and> nat gy < length grid \<and> nat gx < length (grid ! nat gy)
       \<and> grid ! nat gy ! nat gx"

definition skip_neighbor :: "bool list list \<Rightarrow> cell set \<Rightarrow> cell \<Rightarrow> bool" where
  "skip_neighbor grid closedCells neighbor \<longleftrightarrow>
     neighbor \<in> closedCells \<or> fst neighbor < 0 \<or> snd neighbor < 0
       \<or> snd neighbor \<ge> int (length grid) \<or> fst neighbor \<ge> int (grid_width grid)
       \<or> \<not> grid_at grid (fst neighbor) (snd neighbor)"

text \<open>The body of \<^verbatim>\<open>for (const neighbor of neighbors)\<close>.\<close>

definition relax_neighbor ::
  "bool list list \<Rightarrow> cell \<Rightarrow> GridNode \<Rightarrow> astar_state \<Rightarrow> cell \<Rightarrow> astar_state" where
  "relax_neighbor grid gridEnd current st neighbor =
     (if skip_neighbor grid (closedSet st) neighbor then st
      else
        (let tentativeGScore = gScore current + 1
         in if (case gScores st neighbor of None \<Rightarrow> True | Some g \<Rightarrow> tentativeGScore < g)
            then
              (let st1 = st\<lparr>parents := (parents st)(neighbor \<mapsto> Some (point current)),
                           gScores := (gScores st)(neighbor \<mapsto> tentativeGScore)\<rparr>;
                   fScore' = tentativeGScore + heuristic neighbor gridEnd
               in if \<not> list_ex (\<lambda>node. point node = neighbor) (openSet st1)
                  then st1\<lparr>openSet := openSet st1 @
                         [\<lparr>point = neighbor, gScore = tentativeGScore, fScore = fScore',
                           parent = Some (point current)\<rparr>]\<rparr>
                  else st1)
            else st))"

definition neighbors_of :: "cell \<Rightarrow> cell list" where
  "neighbors_of c = [(fst c - 1, snd c), (fst c + 1, snd c), (fst c, snd c - 1), (fst c, snd c + 1)]"

text \<open>
  \<^verbatim>\<open>reconstructPath\<close>: follow the parent links, putting each cell, scaled by the grid
  size, in front of the path. \<^verbatim>\<open>parents.get(key) || null\<close> is \<^verbatim>\<open>null\<close> for a missing
  key and for a stored \<^verbatim>\<open>null\<close>. The loop need not end on an arbitrary map, hence the
  option: \<open>None\<close> is a run that does not return.
\<close>

definition scale_cell :: "real \<Rightarrow> cell \<Rightarrow> Point" where
  "scale_cell gridSize c = \<lparr>pt_x = real_of_int (fst c) * gridSize, pt_y = real_of_int (snd c) * gridSize\<rparr>"

partial_function (option) reconstruct_loop ::
  "(cell \<rightharpoonup> cell option) \<Rightarrow> real \<Rightarrow> cell option \<Rightarrow> Point list \<Rightarrow> Point list option" where
  "reconstruct_loop ps gridSize currentPoint path =
     (case currentPoint of
        None \<Rightarrow> Some path
      | Some c \<Rightarrow>
          reconstruct_loop ps gridSize
            (case ps c of None \<Rightarrow> None | Some p \<Rightarrow> p)
            (scale_cell gridSize c # path))"

declare reconstruct_loop.simps [code]

definition reconstructPath :: "(cell \<rightharpoonup> cell option) \<Rightarrow> cell \<Rightarrow> real \<Rightarrow> Point list option" where
  "reconstructPath ps endPoint gridSize = reconstruct_loop ps gridSize (Some endPoint) []"

text \<open>
  The \<^verbatim>\<open>while (openSet.length > 0)\<close> loop. \<^verbatim>\<open>Array.prototype.sort\<close> is stable, as is
  \<open>sort_key\<close>; \<^verbatim>\<open>shift\<close> takes the head.
\<close>

partial_function (option) astar_loop ::
  "bool list list \<Rightarrow> cell \<Rightarrow> real \<Rightarrow> astar_state \<Rightarrow> Point list option" where
  "astar_loop grid gridEnd gridSize st =
     (case sort_key fScore (openSet st) of
        [] \<Rightarrow> Some []
      | current # rest \<Rightarrow>
          if point current = gridEnd then reconstructPath (parents st) (point current) gridSize
          else
            astar_loop grid gridEnd gridSize
              (foldl (relax_neighbor grid gridEnd current)
                 (st\<lparr>openSet := rest, closedSet := insert (point current) (closedSet st)\<rparr>)
                 (neighbors_of (point current))))"

declare astar_loop.simps [code]

definition findPathAStar :: "bool list list \<Rightarrow> Point \<Rightarrow> Point \<Rightarrow> real \<Rightarrow> Point list option" where
  "findPathAStar grid start end_pt gridSize =
     (let gridStart = (\<lfloor>pt_x start / gridSize\<rfloor>, \<lfloor>pt_y start / gridSize\<rfloor>);
          gridEnd = (\<lfloor>pt_x end_pt / gridSize\<rfloor>, \<lfloor>pt_y end_pt / gridSize\<rfloor>);
          startNode = \<lparr>point = gridStart, gScore = 0, fScore = heuristic gridStart gridEnd,
                       parent = None\<rparr>
      in astar_loop grid gridEnd gridSize
           \<lparr>openSet = [startNode], closedSet = {},
            gScores = [gridStart \<mapsto> 0], parents = [gridStart \<mapsto> None]\<rparr>)"

section \<open>Fallback router\<close>

definition pointInRectangle :: "Point \<Rightarrow> Rectangle \<Rightarrow> bool" where
  "pointInRectangle p rect \<longleftrightarrow>
     pt_x p \<ge> rect_x rect \<and> pt_x p \<le> rect_x rect + width rect \<and>
     pt_y p \<ge> rect_y rect \<and> pt_y p \<le> rect_y rect + height rect"

text \<open>A \<^verbatim>\<open>NaN\<close> sample (\<open>None\<close>) is in no rectangle.\<close>

definition sample_blocked :: "Rectangle list \<Rightarrow> Point option \<Rightarrow> bool" where
  "sample_blocked obstacles sample =
     (case sample of None \<Rightarrow> False | Some p \<Rightarrow> list_ex (pointInRectangle p) obstacles)"

fun isLineClear_loop :: "Point \<Rightarrow> Point \<Rightarrow> Rectangle list \<Rightarrow> real \<Rightarrow> nat list \<Rightarrow> bool" where
  "isLineClear_loop start end_pt obstacles steps [] = True"
| "isLineClear_loop start end_pt obstacles steps (i # is) =
     (if sample_blocked obstacles (interpolate start end_pt (interpolation_t steps i)) then False
      else isLineClear_loop start end_pt obstacles steps is)"

definition isLineClear :: "Point \<Rightarrow> Point \<Rightarrow> Rectangle list \<Rightarrow> bool" where
  "isLineClear start end_pt obstacles =
     (let steps = segment_steps start end_pt
      in isLineClear_loop start end_pt obstacles steps (step_range steps))"

definition createLShapedPath :: "Point \<Rightarrow> Point \<Rightarrow> Rectangle list \<Rightarrow> Point list" where
  "createLShapedPath start end_pt obstacles =
     (let midPoint1 = \<lparr>pt_x = pt_x end_pt, pt_y = pt_y start\<rparr>
      in if isLineClear start midPoint1 obstacles \<and> isLineClear midPoint1 end_pt obstacles
         then [start, midPoint1, end_pt]
         else
           (let midPoint2 = \<lparr>pt_x = pt_x start, pt_y = pt_y end_pt\<rparr>
            in if isLineClear start midPoint2 obstacles \<and> isLineClear midPoint2 end_pt obstacles
               then [start, midPoint2, end_pt]
               else [start, end_pt]))"

section \<open>Path simplifier\<close>

text \<open>The double that the literal \<^verbatim>\<open>1e-5\<close> denotes.\<close>

definition collinearity_tolerance :: real where
  "collinearity_tolerance = fl (1 / 100000)"

text \<open>The area of the source, with each difference and each product rounded.\<close>

definition arePointsCollinear :: "Point \<Rightarrow> Point \<Rightarrow> Point \<Rightarrow> bool" where
  "arePointsCollinear p1 p2 p3 \<longleftrightarrow>
     \<bar>fl (fl (fl (pt_x p2 - pt_x p1) * fl (pt_y p3 - pt_y p1))
          - fl (fl (pt_x p3 - pt_x p1) * fl (pt_y p2 - pt_y p1)))\<bar>
       < collinearity_tolerance"

text \<open>The inner loop \<^verbatim>\<open>while (farthest < path.length - 1)\<close> with its \<^verbatim>\<open>break\<close>.\<close>

function farthest_loop :: "Point list \<Rightarrow> nat \<Rightarrow> nat \<Rightarrow> nat" where
  "farthest_loop path current farthest =
     (if Suc farthest < length path then
        (if \<not> arePointsCollinear (path ! current) (path ! farthest) (path ! Suc farthest)
         then farthest
         else farthest_loop path current (Suc farthest))
      else farthest)"
  by pat_completeness auto
termination
  by (relation "measure (\<lambda>(path, current, farthest). length path - farthest)") auto

declare farthest_loop.simps [simp del]

text \<open>The outer loop \<^verbatim>\<open>while (current < path.length - 1)\<close>.\<close>

function optimize_loop :: "Point list \<Rightarrow> nat \<Rightarrow> Point list \<Rightarrow> Point list" where
  "optimize_loop path current optimized =
     (if Suc current < length path then
        (let farthest = farthest_loop path current (Suc current)
         in optimize_loop path farthest (optimized @ [path ! farthest]))
      else optimized)"
  by pat_completeness auto
termination
proof (relation "measure (\<lambda>(path, current, optimized). length path - current)")
  show "wf (measure (\<lambda>(path, current, optimized). length path - current))" by simp
next
  fix path :: "Point list" and current :: nat and optimized :: "Point list" and x :: nat
  assume a: "Suc current < length path" and x: "x = farthest_loop path current (Suc current)"
  have "f \<le> farthest_loop p c f" for p c f
    by (induction p c f rule: farthest_loop.induct) (subst farthest_loop.simps, auto)
  then have "Suc current \<le> x" unfolding x .
  with a show "((path, x, optimized @ [path ! x]), (path, current, optimized))
      \<in> measure (\<lambda>(path, current, optimized). length path - current)"
    by simp
qed

declare optimize_loop.simps [simp del]

definition optimizePath :: "Point list \<Rightarrow> Point list" where
  "optimizePath path =
     (if length path \<le> 2 then path else optimize_loop path 0 [path ! 0])"

section \<open>Wire router facade\<close>

text \<open>
  \<^verbatim>\<open>calculatePath\<close> on the wire \<open>this\<close>. The result is \<open>None\<close> when the call does not
  return, \<open>Some (Inl e)\<close> when it throws \<open>e\<close> (the store is then as before the call), and
  \<open>Some (Inr (h', path))\<close> when it returns \<open>path\<close> and leaves the store \<open>h'\<close>.
\<close>

definition set_routedPath :: "heap \<Rightarrow> wire_ref \<Rightarrow> Point list \<Rightarrow> heap" where
  "set_routedPath h this rp = h\<lparr>wires := (wires h)(this := (wires h this)\<lparr>routedPath := rp\<rparr>)\<rparr>"

definition calculatePath ::
  "heap \<Rightarrow> wire_ref \<Rightarrow> Rectangle list \<Rightarrow> wire_ref list \<Rightarrow> real
     \<Rightarrow> (js_error + heap \<times> Point list) option" where
  "calculatePath h this obstacles existingWires gridSize =
     (let start = getPosition (pins h (enterPin (wires h this)));
          end_pt = getPosition (pins h (exitPin (wires h this)))
      in if length (bendPoints (wires h this)) > 0 then
           (let rp = [start] @ bendPoints (wires h this) @ [end_pt]
            in Some (Inr (set_routedPath h this rp, rp)))
         else
           (case createObstacleGrid h this obstacles existingWires gridSize start end_pt of
              Inl e \<Rightarrow> Some (Inl e)
            | Inr grid \<Rightarrow>
                (case findPathAStar grid start end_pt gridSize of
                   None \<Rightarrow> None
                 | Some path \<Rightarrow>
                     (let rp = (if length path > 0 then optimizePath path
                                else createLShapedPath start end_pt obstacles)
                      in Some (Inr (set_routedPath h this rp, rp))))))"


text \<open>The path a call returns, or the error it throws, without the store.\<close>

definition returned_path ::
  "(js_error + heap \<times> Point list) option \<Rightarrow> (js_error + Point list) option" where
  "returned_path r = map_option (map_sum id snd) r"

section \<open>Concrete circuits\<close>

text \<open>
  A store for the examples below: pin 0 sits at the source, every other pin at the
  target, and every wire runs from pin 0 to pin 1 with the given manual bend points and
  no routed path yet.
\<close>

definition example_pin :: "Point \<Rightarrow> Pin" where
  "example_pin p =
     \<lparr>pin_name = ''pin'', pin_x = pt_x p, pin_y = pt_y p, pin_type = NULL, component = None,
      convergenceCount = 0, divergenceCount = 0\<rparr>"

definition example_heap :: "Point \<Rightarrow> Point \<Rightarrow> Point list \<Rightarrow> heap" where
  "example_heap source target bends =
     \<lparr>pins = (\<lambda>r. if r = 0 then example_pin source else example_pin target),
      wires = (\<lambda>r. \<lparr>enterPin = 0, exitPin = 1, wire_name = ''wire'', bendPoints = bends,
                     routedPath = []\<rparr>)\<rparr>"

definition pt :: "real \<Rightarrow> real \<Rightarrow> Point" where
  "pt a b = \<lparr>pt_x = a, pt_y = b\<rparr>"

text \<open>The obstacle of the spec's avoidance example, spanning (40,-20)-(60,20).\<close>

definition example_obstacle :: Rectangle where
  "example_obstacle = \<lparr>rect_x = 40, rect_y = -20, width = 20, height = 40\<rparr>"

text \<open>
  The circuit of the avoidance example with a second wire (reference 1) that has
  already been routed along \<open>y = 50\<close>.
\<close>

definition example_store :: heap where
  "example_store = set_routedPath (example_heap (pt 0 0) (pt 100 0) []) 1 [pt 0 50, pt 1 50]"

section \<open>Notions used in the statements and proofs\<close>

text \<open>
  The rasterizer as the spec words it: a cell is marked when its centre, at
  \<open>offset + (index + 1/2) * gridSize\<close>, lies in the rectangle (bounds inclusive).
\<close>

definition spec_cell_marked :: "Rectangle \<Rightarrow> real \<Rightarrow> real \<Rightarrow> real \<Rightarrow> nat \<Rightarrow> nat \<Rightarrow> bool" where
  "spec_cell_marked rect gridSize offsetX offsetY gx gy \<longleftrightarrow>
     pointInRectangle \<lparr>pt_x = offsetX + (real gx + 1 / 2) * gridSize,
                       pt_y = offsetY + (real gy + 1 / 2) * gridSize\<rparr> rect"

text \<open>
  What the code marks: the cells whose extent \<open>(index * gridSize, (index + 1) * gridSize)\<close>
  meets the rectangle's extent in grid-local coordinates, on both axes.
\<close>

definition cell_overlaps :: "Rectangle \<Rightarrow> real \<Rightarrow> real \<Rightarrow> real \<Rightarrow> nat \<Rightarrow> nat \<Rightarrow> bool" where
  "cell_overlaps rect gridSize offsetX offsetY gx gy \<longleftrightarrow>
     real gx * gridSize < rect_x rect + width rect - offsetX \<and>
     rect_x rect - offsetX < (real gx + 1) * gridSize \<and>
     real gy * gridSize < rect_y rect + height rect - offsetY \<and>
     rect_y rect - offsetY < (real gy + 1) * gridSize"

text \<open>Every row is as long as the first one, as in every grid the router builds.\<close>

definition rectangular :: "bool list list \<Rightarrow> bool" where
  "rectangular grid \<longleftrightarrow> list_all (\<lambda>row. length row = grid_width grid) grid"

definition same_shape :: "bool list list \<Rightarrow> bool list list \<Rightarrow> bool" where
  "same_shape g g' \<longleftrightarrow> length g' = length g \<and> (\<forall>y < length g. length (g' ! y) = length (g ! y))"

text \<open>The cross product that \<open>arePointsCollinear\<close> compares with its tolerance.\<close>

definition cross3 :: "Point \<Rightarrow> Point \<Rightarrow> Point \<Rightarrow> real" where
  "cross3 p1 p2 p3 =
     (pt_x p2 - pt_x p1) * (pt_y p3 - pt_y p1) - (pt_x p3 - pt_x p1) * (pt_y p2 - pt_y p1)"

text \<open>
  Integers of magnitude at most \<open>2^24\<close>: on such numbers the differences, sums and
  products that the rasterizer and the collinearity test form stay below \<open>2^53\<close>, so the
  doubles hold them exactly.
\<close>

definition small_integer :: "real \<Rightarrow> bool" where
  "small_integer x \<longleftrightarrow> x \<in> \<int> \<and> \<bar>x\<bar> \<le> 2 ^ 24"

definition integer_point :: "Point \<Rightarrow> bool" where
  "integer_point p \<longleftrightarrow> small_integer (pt_x p) \<and> small_integer (pt_y p)"

fun no_collinear_triple :: "Point list \<Rightarrow> bool" where
  "no_collinear_triple (a # b # c # rest) =
     (\<not> arePointsCollinear a b c \<and> no_collinear_triple (b # c # rest))"
| "no_collinear_triple _ = True"

text \<open>The indices that \<open>optimize_loop\<close> appends, in order.\<close>

function opt_indices :: "Point list \<Rightarrow> nat \<Rightarrow> nat list" where
  "opt_indices path current =
     (if Suc current < length path then
        (let farthest = farthest_loop path current (Suc current)
         in farthest # opt_indices path farthest)
      else [])"
  by pat_completeness auto
termination
proof (relation "measure (\<lambda>(path, current). length path - current)")
  show "wf (measure (\<lambda>(path, current). length path - current))" by simp
next
  fix path :: "Point list" and current :: nat and x :: nat
  assume a: "Suc current < length path" and x: "x = farthest_loop path current (Suc current)"
  have "f \<le> farthest_loop p c f" for p c f
    by (induction p c f rule: farthest_loop.induct) (subst farthest_loop.simps, auto)
  then have "Suc current \<le> x" unfolding x .
  with a show "((path, x), (path, current)) \<in> measure (\<lambda>(path, current). length path - current)"
    by simp
qed

declare opt_indices.simps [simp del]

text \<open>
  The termination argument of the search: the cells of the grid that are neither
  closed nor in the open set can only become fewer, and each iteration removes a node
  from the open set. The parent links always lead to a cell with a smaller score.
\<close>

definition grid_cells :: "bool list list \<Rightarrow> cell set" where
  "grid_cells grid = {0 ..< int (grid_width grid)} \<times> {0 ..< int (length grid)}"

definition unseen :: "bool list list \<Rightarrow> astar_state \<Rightarrow> cell set" where
  "unseen grid st = grid_cells grid - closedSet st - point ` set (openSet st)"

definition search_measure :: "bool list list \<Rightarrow> astar_state \<Rightarrow> nat" where
  "search_measure grid st = length (openSet st) + 2 * card (unseen grid st)"

definition links_ok :: "astar_state \<Rightarrow> bool" where
  "links_ok st \<longleftrightarrow>
     (\<forall>n \<in> set (openSet st). \<exists>a. gScores st (point n) = Some a \<and> a \<le> gScore n) \<and>
     (\<forall>c p. parents st c = Some (Some p) \<longrightarrow>
        (\<exists>a b. gScores st p = Some a \<and> gScores st c = Some b \<and> a < b))"

section \<open>Properties of the rounding\<close>

lemma bit_length_bounds:
  "0 < n \<Longrightarrow> 0 < bit_length n \<and> 2 ^ nat (bit_length n - 1) \<le> n \<and> n < 2 ^ nat (bit_length n)"
proof (induction n rule: bit_length.induct)
  case (1 n)
  have bl: "bit_length n = 1 + bit_length (n div 2)"
    using "1.prems" by (subst bit_length.simps) simp
  show ?case
  proof (cases "n div 2 \<le> 0")
    case True
    with "1.prems" have "n = 1" by presburger
    moreover have "bit_length 0 = 0" by (subst bit_length.simps) simp
    ultimately show ?thesis using bl by simp
  next
    case False
    define k where "k = bit_length (n div 2)"
    from False "1.prems" "1.IH"
    have ih: "0 < k" "2 ^ nat (k - 1) \<le> n div 2" "n div 2 < 2 ^ nat k"
      by (simp_all add: k_def)
    have p: "(2::int) ^ nat k = 2 * 2 ^ nat (k - 1)"
    proof -
      have "nat k = Suc (nat (k - 1))" using ih(1) by simp
      then show ?thesis by (simp only: power_Suc)
    qed
    have q: "(2::int) ^ nat (1 + k) = 2 * 2 ^ nat k"
    proof -
      have "nat (1 + k) = Suc (nat k)" using ih(1) by simp
      then show ?thesis by (simp only: power_Suc)
    qed
    have "(2::int) ^ nat k \<le> 2 * (n div 2)" using ih(2) p by simp
    also have "\<dots> \<le> n" by presburger
    finally have lo: "2 ^ nat (bit_length n - 1) \<le> n" by (simp add: bl k_def)
    have "n < 2 * (n div 2) + 2" by presburger
    also have "\<dots> \<le> 2 * 2 ^ nat k" using ih(3) by simp
    finally have "n < 2 ^ nat (bit_length n)" unfolding bl k_def [symmetric] q .
    with lo ih(1) show ?thesis by (simp add: bl k_def)
  qed
qed

lemma exponent_of_bounds:
  assumes "0 < x"
  shows "2 powi exponent_of x \<le> x \<and> x < 2 powi (exponent_of x + 1)"
proof (cases "1 \<le> x")
  case True
  define z where "z = \<lfloor>x\<rfloor>"
  have z: "0 < z" "of_int z \<le> x" "x < of_int z + 1"
    using True by (simp_all add: z_def)
  define k where "k = bit_length z"
  from bit_length_bounds [OF z(1)]
  have b: "0 < k" "2 ^ nat (k - 1) \<le> z" "z < 2 ^ nat k" by (simp_all add: k_def)
  have e: "exponent_of x = k - 1"
    using True by (simp add: exponent_of_def z_def k_def)
  have "(2::real) powi (k - 1) = 2 powi int (nat (k - 1))" using b(1) by simp
  also have "\<dots> = 2 ^ nat (k - 1)" by (rule power_int_of_nat)
  also have "\<dots> \<le> of_int z" using b(2) by simp
  finally have lo: "2 powi exponent_of x \<le> x" unfolding e using z(2) by linarith
  have "z + 1 \<le> 2 ^ nat k" using b(3) by simp
  then have "real_of_int (z + 1) \<le> 2 ^ nat k"
    by (metis of_int_le_iff of_int_numeral of_int_power)
  moreover have "(2::real) powi (k - 1 + 1) = 2 powi int (nat k)" using b(1) by simp
  then have "(2::real) powi (k - 1 + 1) = 2 ^ nat k" by (simp only: power_int_of_nat)
  ultimately have "x < 2 powi (exponent_of x + 1)" unfolding e using z(3) by simp
  with lo show ?thesis by simp
next
  case False
  define m where "m = \<lceil>1 / x\<rceil>"
  have inv: "1 < 1 / x" using assms False by simp
  then have m2: "2 \<le> m" unfolding m_def by linarith
  have mx: "1 / x \<le> of_int m" "of_int m - 1 < 1 / x"
    unfolding m_def by linarith+
  define k where "k = bit_length (m - 1)"
  have e: "exponent_of x = - k"
    using False by (simp add: exponent_of_def k_def m_def)
  have m1: "0 < m - 1" using m2 by simp
  from bit_length_bounds [OF m1]
  have b: "0 < k" "2 ^ nat (k - 1) \<le> m - 1" "m - 1 < 2 ^ nat k" by (simp_all add: k_def)
  have "m \<le> 2 ^ nat k" using b(3) by simp
  then have "real_of_int m \<le> 2 ^ nat k" by (metis of_int_le_iff of_int_numeral of_int_power)
  with mx(1) have "1 / x \<le> 2 ^ nat k" by linarith
  then have "1 / 2 ^ nat k \<le> x"
    using assms by (simp add: field_simps)
  moreover have "(2::real) powi (- k) = 1 / 2 ^ nat k"
  proof -
    have "- k = - int (nat k)" using b(1) by simp
    then have "(2::real) powi (- k) = 2 powi (- int (nat k))" by (rule arg_cong)
    also have "\<dots> = 1 / 2 ^ nat k"
      by (simp only: power_int_minus power_int_of_nat inverse_eq_divide)
    finally show ?thesis .
  qed
  ultimately have lo: "2 powi exponent_of x \<le> x" unfolding e by simp
  have "real_of_int (2 ^ nat (k - 1)) \<le> real_of_int (m - 1)"
    using b(2) by (simp only: of_int_le_iff)
  then have "2 ^ nat (k - 1) \<le> real_of_int m - 1" by simp
  then have "2 ^ nat (k - 1) < 1 / x" using mx(2) by linarith
  then have "x < 1 / 2 ^ nat (k - 1)"
    using assms by (simp add: field_simps)
  moreover have "(2::real) powi (- k + 1) = 1 / 2 ^ nat (k - 1)"
  proof -
    have "- k + 1 = - int (nat (k - 1))" using b(1) by simp
    then have "(2::real) powi (- k + 1) = 2 powi (- int (nat (k - 1)))" by (rule arg_cong)
    also have "\<dots> = 1 / 2 ^ nat (k - 1)"
      by (simp only: power_int_minus power_int_of_nat inverse_eq_divide)
    finally show ?thesis .
  qed
  ultimately have "x < 2 powi (exponent_of x + 1)" unfolding e by simp
  with lo show ?thesis by simp
qed

lemma round_half_even_error: "\<bar>of_int (round_half_even m) - m\<bar> \<le> 1 / 2"
  unfolding round_half_even_def Let_def by (simp; linarith)

lemma round_half_even_int: "round_half_even (of_int z) = z"
  by (simp add: round_half_even_def)

lemma fl_zero: "fl 0 = 0"
  by (simp add: fl_def)


lemma fl_int:
  assumes "\<bar>z\<bar> < 2 ^ 53"
  shows "fl (of_int z) = of_int z"
proof (cases "z = 0")
  case True
  then show ?thesis by (simp add: fl_zero)
next
  case False
  define x :: real where "x = of_int \<bar>z\<bar>"
  have "1 \<le> \<bar>z\<bar>" using False by linarith
  then have x1: "1 \<le> x" unfolding x_def by simp
  have x53: "x < 2 ^ 53" using assms unfolding x_def by simp
  have xabs: "\<bar>real_of_int z\<bar> = x" by (simp add: x_def)
  define e where "e = exponent_of x"
  have b: "2 powi e \<le> x" "x < 2 powi (e + 1)"
    using exponent_of_bounds [of x] x1 by (simp_all add: e_def)
  have e0: "0 \<le> e"
  proof (rule ccontr)
    assume "\<not> 0 \<le> e"
    then have "e + 1 \<le> 0" by simp
    then have "(2::real) powi (e + 1) \<le> 2 powi 0" by (intro power_int_increasing) simp_all
    with b(2) x1 show False by simp
  qed
  have e52: "e \<le> 52"
  proof (rule ccontr)
    assume "\<not> e \<le> 52"
    then have "53 \<le> e" by simp
    then have "(2::real) powi 53 \<le> 2 powi e" by (intro power_int_increasing) simp_all
    with b(1) x53 show False by simp
  qed
  define n where "n = nat (52 - e)"
  have u: "(2::real) powi (e - 52) = 1 / 2 ^ n"
  proof -
    have "e - 52 = - int n" using e52 by (simp add: n_def)
    then have "(2::real) powi (e - 52) = 2 powi (- int n)" by (rule arg_cong)
    also have "\<dots> = 1 / 2 ^ n"
      by (simp only: power_int_minus power_int_of_nat inverse_eq_divide)
    finally show ?thesis .
  qed
  define u' :: real where "u' = 2 powi (e - 52)"
  have u'n: "u' = 1 / 2 ^ n" unfolding u'_def by (rule u)
  have m: "max e (- 1022) = e" using e0 by simp
  have "x / u' = of_int (\<bar>z\<bar> * 2 ^ n)" unfolding u'n by (simp add: x_def)
  then have r: "round_half_even (x / u') = \<bar>z\<bar> * 2 ^ n"
    by (simp only: round_half_even_int)
  have "fl (of_int z) = sgn (real_of_int z) * (of_int (round_half_even (x / u')) * u')"
    using False by (simp add: fl_def Let_def xabs e_def [symmetric] m u'_def [symmetric])
  also have "\<dots> = sgn (real_of_int z) * (of_int (\<bar>z\<bar> * 2 ^ n) * u')"
    by (simp only: r)
  also have "\<dots> = sgn (real_of_int z) * (of_int (\<bar>z\<bar> * 2 ^ n) * (1 / 2 ^ n))"
    by (simp only: u'n)
  also have "\<dots> = sgn (real_of_int z) * \<bar>real_of_int z\<bar>" by simp
  also have "\<dots> = of_int z" by (simp add: sgn_mult_abs)
  finally show ?thesis .
qed

lemma fl_error:
  assumes "2 powi (- 1022) \<le> \<bar>x\<bar>"
  shows "\<bar>fl x - x\<bar> \<le> \<bar>x\<bar> / 2 ^ 53"
proof -
  have pos: "0 < \<bar>x\<bar>"
    using assms zero_less_power_int [of "2::real" "- 1022"] by linarith
  then have x0: "x \<noteq> 0" by simp
  define e where "e = exponent_of \<bar>x\<bar>"
  have b: "2 powi e \<le> \<bar>x\<bar>" "\<bar>x\<bar> < 2 powi (e + 1)"
    using exponent_of_bounds [OF pos] by (simp_all add: e_def)
  have e_lo: "- 1022 \<le> e"
  proof (rule ccontr)
    assume "\<not> - 1022 \<le> e"
    then have "e + 1 \<le> - 1022" by simp
    then have "(2::real) powi (e + 1) \<le> 2 powi (- 1022)" by (intro power_int_increasing) simp_all
    with b(2) assms show False by simp
  qed
  then have m: "max e (- 1022) = e" by simp
  define u :: real where "u = 2 powi (e - 52)"
  have upos: "0 < u" unfolding u_def by (rule zero_less_power_int) simp
  have u52: "u * 2 ^ 52 = 2 powi e"
  proof -
    have "(2::real) powi e = 2 powi ((e - 52) + 52)" by simp
    also have "\<dots> = 2 powi (e - 52) * 2 powi 52" by (rule power_int_add) simp
    finally show ?thesis by (simp add: u_def)
  qed
  define r where "r = round_half_even (\<bar>x\<bar> / u)"
  have "\<bar>of_int r - \<bar>x\<bar> / u\<bar> \<le> 1 / 2" unfolding r_def by (rule round_half_even_error)
  then have "\<bar>of_int r - \<bar>x\<bar> / u\<bar> * u \<le> 1 / 2 * u"
    using upos by (intro mult_right_mono) simp_all
  moreover have "\<bar>of_int r - \<bar>x\<bar> / u\<bar> * u = \<bar>of_int r * u - \<bar>x\<bar>\<bar>"
  proof -
    have "\<bar>of_int r - \<bar>x\<bar> / u\<bar> * u = \<bar>(of_int r - \<bar>x\<bar> / u) * u\<bar>"
      using upos by (simp add: abs_mult)
    also have "(of_int r - \<bar>x\<bar> / u) * u = of_int r * u - \<bar>x\<bar>"
      using upos by (simp add: field_simps)
    finally show ?thesis .
  qed
  ultimately have err: "\<bar>of_int r * u - \<bar>x\<bar>\<bar> \<le> u / 2" by simp
  have flx: "fl x = sgn x * (of_int r * u)"
    using x0 by (simp add: fl_def Let_def e_def [symmetric] m u_def [symmetric] r_def)
  have "fl x - x = sgn x * (of_int r * u - \<bar>x\<bar>)"
    unfolding flx by (simp add: algebra_simps sgn_mult_abs abs_mult_sgn)
  then have "\<bar>fl x - x\<bar> = \<bar>of_int r * u - \<bar>x\<bar>\<bar>"
    using x0 by (simp add: abs_mult abs_sgn_eq)
  also have "\<dots> \<le> u / 2" by (rule err)
  also have "\<dots> \<le> \<bar>x\<bar> / 2 ^ 53"
  proof -
    have "u * 2 ^ 52 \<le> \<bar>x\<bar>" using b(1) u52 by simp
    then show ?thesis by (simp add: field_simps)
  qed
  finally show ?thesis .
qed

lemma fl_quotient:
  fixes n d :: int
  assumes n: "\<bar>n\<bar> \<le> 2 ^ 26" and d: "1 \<le> d" "d \<le> 2 ^ 24"
  shows "\<lfloor>fl (of_int n / of_int d)\<rfloor> = \<lfloor>real_of_int n / of_int d\<rfloor>
       \<and> \<lceil>fl (of_int n / of_int d)\<rceil> = \<lceil>real_of_int n / of_int d\<rceil>"
proof -
  define q :: real where "q = of_int n / of_int d"
  define k where "k = \<lfloor>q\<rfloor>"
  have dpos: "0 < real_of_int d" using d(1) by simp
  have d1: "1 \<le> real_of_int d" using d(1) by simp
  have d24: "real_of_int d \<le> 2 ^ 24" using d(2) by (metis of_int_le_iff of_int_numeral of_int_power)
  have n26: "\<bar>real_of_int n\<bar> \<le> 2 ^ 26"
    using n by (metis of_int_abs of_int_le_iff of_int_numeral of_int_power)
  have qn: "\<bar>q\<bar> \<le> \<bar>real_of_int n\<bar>"
  proof -
    have "\<bar>q\<bar> = \<bar>real_of_int n\<bar> / real_of_int d" using dpos by (simp add: q_def)
    also have "\<dots> \<le> \<bar>real_of_int n\<bar> / 1" using d1 by (intro divide_left_mono) simp_all
    finally show ?thesis by simp
  qed
  show ?thesis
  proof (cases "q = of_int k")
    case True
    have "\<bar>real_of_int k\<bar> \<le> 2 ^ 26" using qn n26 True by simp
    then have "\<bar>k\<bar> \<le> 2 ^ 26" by (metis of_int_abs of_int_le_iff of_int_numeral of_int_power)
    then have "\<bar>k\<bar> < 2 ^ 53" by simp
    then have "fl (of_int k) = of_int k" by (rule fl_int)
    with True show ?thesis unfolding q_def [symmetric] by simp
  next
    case False
    from floor_correct [of q] have "of_int k \<le> q" and k1: "q < of_int k + 1"
      by (simp_all add: k_def)
    with False have kq: "of_int k < q" "q < of_int k + 1" by simp_all
    have "real_of_int (k * d) < of_int n" "real_of_int n < of_int ((k + 1) * d)"
      using kq dpos by (simp_all add: q_def field_simps)
    then have "k * d < n" "n < (k + 1) * d" by (simp_all only: of_int_less_iff)
    then have "k * d + 1 \<le> n" "n + 1 \<le> (k + 1) * d" by simp_all
    then have "real_of_int (k * d + 1) \<le> of_int n" "real_of_int (n + 1) \<le> of_int ((k + 1) * d)"
      by (simp_all only: of_int_le_iff)
    then have ineq: "real_of_int (k * d + 1) / of_int d \<le> q"
      "q \<le> real_of_int ((k + 1) * d - 1) / of_int d"
      unfolding q_def using dpos by (simp_all add: divide_right_mono)
    have "real_of_int (k * d + 1) / of_int d = of_int k + 1 / of_int d"
      "real_of_int ((k + 1) * d - 1) / of_int d = of_int k + 1 - 1 / of_int d"
      using dpos by (simp_all add: field_simps)
    with ineq have gap: "of_int k + 1 / of_int d \<le> q" "q \<le> of_int k + 1 - 1 / of_int d"
      by simp_all
    have inv: "1 / 2 ^ 24 \<le> 1 / real_of_int d"
      using d24 dpos by (simp add: field_simps)
    have n0: "n \<noteq> 0" using False by (auto simp: q_def k_def)
    then have "1 \<le> \<bar>n\<bar>" by linarith
    then have "1 \<le> \<bar>real_of_int n\<bar>" by (simp flip: of_int_abs)
    then have "1 / real_of_int d \<le> \<bar>q\<bar>"
      using dpos by (simp add: q_def field_simps)
    with inv have "1 / 2 ^ 24 \<le> \<bar>q\<bar>" by linarith
    moreover have "(2::real) powi (- 1022) \<le> 1 / 2 ^ 24"
    proof -
      have "(2::real) powi (- 1022) \<le> 2 powi (- 24)" by (intro power_int_increasing) simp_all
      then show ?thesis by (simp add: power_int_minus field_simps)
    qed
    ultimately have "2 powi (- 1022) \<le> \<bar>q\<bar>" by linarith
    then have "\<bar>fl q - q\<bar> \<le> \<bar>q\<bar> / 2 ^ 53" by (rule fl_error)
    also have "\<dots> \<le> 2 ^ 26 / 2 ^ 53" using qn n26 by (intro divide_right_mono) simp_all
    also have "\<dots> < 1 / 2 ^ 24" by simp
    finally have "\<bar>fl q - q\<bar> < 1 / real_of_int d" using inv by linarith
    with gap have fq: "of_int k < fl q" "fl q < of_int k + 1" by linarith+
    have "\<lfloor>fl q\<rfloor> = k" using fq by (intro floor_unique) simp_all
    moreover have "\<lceil>fl q\<rceil> = k + 1" using fq by (intro ceiling_unique) simp_all
    moreover have "\<lceil>q\<rceil> = k + 1" using kq by (intro ceiling_unique) simp_all
    ultimately show ?thesis unfolding q_def [symmetric] k_def [symmetric] by simp
  qed
qed

lemma fl_Ints:
  assumes "x \<in> \<int>" "\<bar>x\<bar> < 2 ^ 53"
  shows "fl x = x"
proof -
  from assms(1) obtain z where z: "x = of_int z" by (auto elim: Ints_cases)
  with assms(2) have "\<bar>z\<bar> < 2 ^ 53" by (simp flip: of_int_abs)
  then show ?thesis unfolding z by (rule fl_int)
qed

text \<open>
  For evaluation: an integer below \<open>2^53\<close> is its own rounding, and the tolerance is
  the double \<open>5902958103587057 * 2^(-69)\<close>.
\<close>

lemma fl_code [code]:
  "fl x =
     (if of_int \<lfloor>x\<rfloor> = x \<and> \<bar>x\<bar> < 9007199254740992 then x
      else if x = 0 then 0
      else
        (let e = max (exponent_of \<bar>x\<bar>) (- 1022);
             u = 2 powi (e - 52)
         in sgn x * (of_int (round_half_even (\<bar>x\<bar> / u)) * u)))"
proof (cases "of_int \<lfloor>x\<rfloor> = x \<and> \<bar>x\<bar> < 9007199254740992")
  case True
  then have "x \<in> \<int>" by (metis Ints_of_int)
  moreover from True have "\<bar>x\<bar> < 2 ^ 53" by simp
  ultimately have "fl x = x" by (rule fl_Ints)
  with True show ?thesis by simp
next
  case False
  then show ?thesis by (simp only: fl_def if_False)
qed

lemma collinearity_tolerance_code [code]:
  "collinearity_tolerance = 5902958103587057 / 590295810358705651712"
  unfolding collinearity_tolerance_def by code_simp

lemma fl_quotient_Ints:
  assumes "a \<in> \<int>" "\<bar>a\<bar> \<le> 2 ^ 26" "g \<in> \<int>" "1 \<le> g" "g \<le> 2 ^ 24"
  shows "\<lfloor>fl (a / g)\<rfloor> = \<lfloor>a / g\<rfloor> \<and> \<lceil>fl (a / g)\<rceil> = \<lceil>a / g\<rceil>"
proof -
  from assms(1) obtain n where n: "a = of_int n" by (auto elim: Ints_cases)
  from assms(3) obtain d where d: "g = of_int d" by (auto elim: Ints_cases)
  have "\<bar>n\<bar> \<le> 2 ^ 26" using assms(2) unfolding n by (simp flip: of_int_abs)
  moreover have "1 \<le> d" "d \<le> 2 ^ 24" using assms(4,5) unfolding d by simp_all
  ultimately show ?thesis unfolding n d by (rule fl_quotient)
qed

lemma small_integer_diff:
  assumes "small_integer a" "small_integer b"
  shows "a - b \<in> \<int>" "\<bar>a - b\<bar> \<le> 2 ^ 25" "a + b \<in> \<int>" "\<bar>a + b\<bar> \<le> 2 ^ 25"
  using assms by (auto simp: small_integer_def)

lemma rasterizer_floor:
  assumes "small_integer a" "small_integer off" "small_integer g" "1 \<le> g"
  shows "\<lfloor>fl (fl (a - off) / g)\<rfloor> = \<lfloor>(a - off) / g\<rfloor>"
proof -
  note d = small_integer_diff [OF assms(1,2)]
  have "fl (a - off) = a - off" using d(1,2) by (intro fl_Ints) simp_all
  moreover have "\<lfloor>fl ((a - off) / g)\<rfloor> = \<lfloor>(a - off) / g\<rfloor>"
    using d(1,2) assms(3,4) by (intro conjunct1 [OF fl_quotient_Ints]) (simp_all add: small_integer_def)
  ultimately show ?thesis by simp
qed

lemma rasterizer_ceiling:
  assumes "small_integer a" "small_integer w" "small_integer off" "small_integer g" "1 \<le> g"
  shows "\<lceil>fl (fl (fl (a + w) - off) / g)\<rceil> = \<lceil>(a + w - off) / g\<rceil>"
proof -
  note s = small_integer_diff [OF assms(1,2)]
  have i: "a + w - off \<in> \<int>" using s(3) assms(3) by (simp add: small_integer_def)
  have "\<bar>off\<bar> \<le> 2 ^ 24" using assms(3) by (simp add: small_integer_def)
  with s(4) have b: "\<bar>a + w - off\<bar> \<le> 2 ^ 26" by simp
  have "fl (a + w) = a + w" using s(3,4) by (intro fl_Ints) simp_all
  moreover have "fl (a + w - off) = a + w - off" using i b by (intro fl_Ints) simp_all
  moreover have "\<lceil>fl ((a + w - off) / g)\<rceil> = \<lceil>(a + w - off) / g\<rceil>"
    using i b assms(4,5) by (intro conjunct2 [OF fl_quotient_Ints]) (simp_all add: small_integer_def)
  ultimately show ?thesis by simp
qed

section \<open>Manual bend points\<close>

text \<open>
  C4. A wire whose list of manual bend points is not empty is routed as the source, the
  bend points and the target, in this order, whatever the obstacles, the other wires
  and the grid size are; the path is stored in the wire, and the call returns without
  building a grid or searching (it returns even for a grid size on which building the
  grid throws).
\<close>

theorem calculatePath_manual_bends:
  assumes "bendPoints (wires h this) \<noteq> []"
  shows "calculatePath h this obstacles existingWires gridSize =
           Some (Inr (set_routedPath h this
                        ([getPosition (pins h (enterPin (wires h this)))]
                           @ bendPoints (wires h this)
                           @ [getPosition (pins h (exitPin (wires h this)))]),
                      [getPosition (pins h (enterPin (wires h this)))]
                        @ bendPoints (wires h this)
                        @ [getPosition (pins h (exitPin (wires h this)))]))"
  using assms by (simp add: calculatePath_def Let_def)

theorem calculatePath_manual_bends_witness:
  "bendPoints (wires (example_heap (pt 0 0) (pt 100 0) [pt 50 70, pt 50 (-70)]) 0) \<noteq> []
   \<and> returned_path (calculatePath (example_heap (pt 0 0) (pt 100 0) [pt 50 70, pt 50 (-70)]) 0
        [example_obstacle] [] 0)
      = Some (Inr [pt 0 0, pt 50 70, pt 50 (-70), pt 100 0])"
proof -
  have ne: "bendPoints (wires (example_heap (pt 0 0) (pt 100 0) [pt 50 70, pt 50 (-70)]) 0) \<noteq> []"
    by (simp add: example_heap_def)
  show ?thesis
    using ne calculatePath_manual_bends [OF ne, of "[example_obstacle]" "[]" 0]
    by (simp add: returned_path_def example_heap_def example_pin_def getPosition_def pt_def)
qed

section \<open>Wire construction and the pin counters\<close>

text \<open>
  C10. Constructing a wire with enter pin \<open>e\<close> and exit pin \<open>x\<close> returns the new wire,
  raises the divergence count of \<open>e\<close> by one and the convergence count of \<open>x\<close> by one, and
  leaves every other field of both pins as it was: name, position, type and owning
  component, and, when the two pins are different objects, the convergence count of
  \<open>e\<close> and the divergence count of \<open>x\<close>. With a missing enter pin or a missing exit pin
  the constructor throws and the store, hence every counter, is as before.
\<close>

theorem Wire_constructor_counters:
  "snd (Wire_constructor h this (Some e) (Some x) nm bends) = Inr this
   \<and> divergenceCount (pins (fst (Wire_constructor h this (Some e) (Some x) nm bends)) e)
       = divergenceCount (pins h e) + 1
   \<and> convergenceCount (pins (fst (Wire_constructor h this (Some e) (Some x) nm bends)) x)
       = convergenceCount (pins h x) + 1
   \<and> (e \<noteq> x \<longrightarrow>
        convergenceCount (pins (fst (Wire_constructor h this (Some e) (Some x) nm bends)) e)
          = convergenceCount (pins h e)
        \<and> divergenceCount (pins (fst (Wire_constructor h this (Some e) (Some x) nm bends)) x)
          = divergenceCount (pins h x))
   \<and> pin_name (pins (fst (Wire_constructor h this (Some e) (Some x) nm bends)) e) = pin_name (pins h e)
   \<and> pin_x (pins (fst (Wire_constructor h this (Some e) (Some x) nm bends)) e) = pin_x (pins h e)
   \<and> pin_y (pins (fst (Wire_constructor h this (Some e) (Some x) nm bends)) e) = pin_y (pins h e)
   \<and> pin_type (pins (fst (Wire_constructor h this (Some e) (Some x) nm bends)) e) = pin_type (pins h e)
   \<and> component (pins (fst (Wire_constructor h this (Some e) (Some x) nm bends)) e) = component (pins h e)
   \<and> pin_name (pins (fst (Wire_constructor h this (Some e) (Some x) nm bends)) x) = pin_name (pins h x)
   \<and> pin_x (pins (fst (Wire_constructor h this (Some e) (Some x) nm bends)) x) = pin_x (pins h x)
   \<and> pin_y (pins (fst (Wire_constructor h this (Some e) (Some x) nm bends)) x) = pin_y (pins h x)
   \<and> pin_type (pins (fst (Wire_constructor h this (Some e) (Some x) nm bends)) x) = pin_type (pins h x)
   \<and> component (pins (fst (Wire_constructor h this (Some e) (Some x) nm bends)) x) = component (pins h x)
   \<and> Wire_constructor h this None exitPin_arg nm bends
       = (h, Inl (Error ''Both enter and exit pins must be provided''))
   \<and> Wire_constructor h this enterPin_arg None nm bends
       = (h, Inl (Error ''Both enter and exit pins must be provided''))"
  by (cases enterPin_arg; cases exitPin_arg) (simp_all add: Wire_constructor_def Let_def)

theorem Wire_constructor_counters_witness:
  "(0 :: pin_ref) \<noteq> 1
   \<and> divergenceCount (pins (fst (Wire_constructor (example_heap (pt 0 0) (pt 100 0) []) 7
        (Some 0) (Some 1) ''w'' [])) 0) = 1
   \<and> convergenceCount (pins (fst (Wire_constructor (example_heap (pt 0 0) (pt 100 0) []) 7
        (Some 0) (Some 1) ''w'' [])) 1) = 1
   \<and> convergenceCount (pins (fst (Wire_constructor (example_heap (pt 0 0) (pt 100 0) []) 7
        (Some 0) (Some 1) ''w'' [])) 0) = 0
   \<and> divergenceCount (pins (fst (Wire_constructor (example_heap (pt 0 0) (pt 100 0) []) 7
        (Some 0) (Some 1) ''w'' [])) 1) = 0"
proof -
  have ne: "(0 :: pin_ref) \<noteq> 1" by simp
  show ?thesis
    using ne Wire_constructor_counters [of "example_heap (pt 0 0) (pt 100 0) []" 7 0 1 "''w''" "[]"]
    by (simp add: example_heap_def example_pin_def)
qed

section \<open>Zero-length segments\<close>

lemma Point_eta: "\<lparr>pt_x = pt_x p, pt_y = pt_y p\<rparr> = (p :: Point)"
  by (cases p) simp

text \<open>
  C9. Neither interpolation routine divides by zero: the interpolation parameter is
  always a number, and it is 0 when the step count is 0. On a zero-length segment the
  step count is 0, the loop counter takes the value 0 only, and the one sample is the
  endpoint itself, both where a wire path is marked in the grid and where the fallback
  tests a segment against the obstacles.
\<close>

theorem zero_length_segment_sampling:
  "interpolation_t steps step \<noteq> None
   \<and> interpolation_t 0 step = Some 0
   \<and> segment_steps p p = 0
   \<and> step_range (segment_steps p p) = [0]
   \<and> wire_segment_samples p p = [Some p]
   \<and> markWirePathInGrid grid [p, p] gridSize offsetX offsetY
       = mark_sample gridSize offsetX offsetY grid (Some p)
   \<and> isLineClear p p obstacles = (\<not> sample_blocked obstacles (Some p))"
  by (simp add: interpolation_t_def js_div_def segment_steps_def step_range_def
      wire_segment_samples_def interpolate_def markWirePathInGrid_def isLineClear_def
      Point_eta)

section \<open>The search ignores the origin of the grid\<close>

text \<open>
  \<open>createObstacleGrid\<close> lays the grid out from the corner \<open>(minX, minY)\<close> of the bounding
  window, and both marking routines subtract that corner before they divide by the grid
  size. \<open>findPathAStar\<close> divides the absolute coordinates of source and target by the
  grid size and uses the result as indices into the same grid, and \<open>reconstructPath\<close>
  multiplies the cells back without adding the corner. The four evaluations below run
  the code on inputs where this shows.
\<close>

text \<open>
  The fallback, like the branch for manual bend points, does start at the source and
  end at the target, with at least two points; only the branch that takes the path of
  the search does not.
\<close>

lemma createLShapedPath_endpoints:
  "hd (createLShapedPath start end_pt obstacles) = start
   \<and> last (createLShapedPath start end_pt obstacles) = end_pt
   \<and> 2 \<le> length (createLShapedPath start end_pt obstacles)"
  by (simp add: createLShapedPath_def Let_def)

text \<open>
  C2. On the spec's example (source (0,0), target (100,0), one obstacle spanning
  (40,-20)-(60,20), no other wires, cell size 10) the router returns the direct line
  from (0,0) to (100,0). That line is not clear of the obstacle: its sample (50,0) lies
  inside the rectangle.
\<close>

theorem calculatePath_example_crosses_obstacle:
  "returned_path (calculatePath (example_heap (pt 0 0) (pt 100 0) []) 0 [example_obstacle] [] 10)
     = Some (Inr [pt 0 0, pt 100 0])
   \<and> \<not> isLineClear (pt 0 0) (pt 100 0) [example_obstacle]
   \<and> pointInRectangle (pt 50 0) example_obstacle"
  by code_simp

text \<open>
  C1. With source (5,5), target (35,5), no obstacles and cell size 10 the search finds a
  path, and the router returns the corners of the cells, (0,0) and (30,0): neither the
  source nor the target is on the returned path.
\<close>

theorem calculatePath_snaps_endpoints:
  "returned_path (calculatePath (example_heap (pt 5 5) (pt 35 5) []) 0 [] [] 10)
     = Some (Inr [pt 0 0, pt 30 0])"
  by code_simp

text \<open>
  C3. With source and target both at (0,0) and no obstacles the start cell is the goal
  cell, the search returns the one-point path of that cell, and the router returns it:
  a path of length 1.
\<close>

theorem calculatePath_single_point:
  "returned_path (calculatePath (example_heap (pt 0 0) (pt 0 0) []) 0 [] [] 10)
     = Some (Inr [pt 0 0])"
  by code_simp

text \<open>
  C5. With source (300,200), target (400,200), no obstacles and no other wires the grid
  is fully open, 20 cells wide and 10 cells high. The start cell (30,20) and the goal
  cell (40,20) are at Manhattan distance 10, but both lie outside the index range of
  the grid, every neighbour of the start cell is rejected, and the search returns the
  empty path.
\<close>

theorem findPathAStar_open_grid_no_path:
  "createObstacleGrid (example_heap (pt 300 200) (pt 400 200) []) 0 [] [] 10
       (pt 300 200) (pt 400 200)
     = Inr (replicate 10 (replicate 20 True))
   \<and> findPathAStar (replicate 10 (replicate 20 True)) (pt 300 200) (pt 400 200) 10 = Some []
   \<and> heuristic (30, 20) (40, 20) = 10"
  by code_simp

section \<open>Which cells an obstacle blocks\<close>

text \<open>
  C6, as the spec states it, fails: on a 10 by 10 grid of cell size 10 at the origin, the
  rectangle spanning (46,46)-(54,54) blocks cell (4,4), whose centre (45,45) is outside
  the rectangle.
\<close>

theorem markRectangleInGrid_centre_counterexample:
  "markRectangleInGrid (replicate 10 (replicate 10 True))
       \<lparr>rect_x = 46, rect_y = 46, width = 8, height = 8\<rparr> 10 0 0 ! 4 ! 4 = False
   \<and> \<not> spec_cell_marked \<lparr>rect_x = 46, rect_y = 46, width = 8, height = 8\<rparr> 10 0 0 4 4"
  by code_simp

text \<open>
  The rounding matters to the rasterizer. Below, the rectangle spans \<open>y = 126.3\<close> to
  \<open>146.3\<close> and the grid starts at \<open>y = 76.3\<close> (as doubles), with cell size 10: the
  rectangle ends exactly where row 7 begins, but the rounded quotient is just above 7
  and its ceiling is 8, so row 7 is blocked too.
\<close>

lemma markRectangleInGrid_rounding_example:
  "markRectangleInGrid (replicate 10 (replicate 2 True))
       \<lparr>rect_x = 0, rect_y = fl (1263 / 10), width = 10, height = 20\<rparr> 10 0 (fl (763 / 10)) ! 7 ! 0
     = False
   \<and> \<not> cell_overlaps \<lparr>rect_x = 0, rect_y = fl (1263 / 10), width = 10, height = 20\<rparr>
          10 0 (fl (763 / 10)) 0 7"
  by code_simp

lemma grid_width_nth: "grid_width g = (if g = [] then 0 else length (g ! 0))"
  by (cases g) (simp_all add: grid_width_def)

lemma same_shape_width: "same_shape g g' \<Longrightarrow> grid_width g' = grid_width g"
  by (cases g; cases g') (auto simp: same_shape_def grid_width_def)

lemma same_shape_refl: "same_shape g g"
  by (simp add: same_shape_def)

lemma same_shape_trans: "same_shape g g' \<Longrightarrow> same_shape g' g'' \<Longrightarrow> same_shape g g''"
  by (simp add: same_shape_def)

lemma same_shape_block_cell: "same_shape g (block_cell g gy gx)"
  by (cases "gy < length g") (auto simp: same_shape_def block_cell_def nth_list_update)

lemma block_cell_nth:
  "y < length g \<Longrightarrow> x < length (g ! y) \<Longrightarrow>
     block_cell g gy gx ! y ! x = (g ! y ! x \<and> \<not> (y = gy \<and> x = gx))"
  by (cases "gy < length g"; cases "gx < length (g ! gy)")
     (auto simp: block_cell_def nth_list_update split: if_splits)

lemma mark_columns:
  "same_shape g (foldl (\<lambda>g' gx. block_cell g' gy gx) g xs)
   \<and> (\<forall>y < length g. \<forall>x < length (g ! y).
         foldl (\<lambda>g' gx. block_cell g' gy gx) g xs ! y ! x
           = (g ! y ! x \<and> \<not> (y = gy \<and> x \<in> set xs)))"
proof (induction xs arbitrary: g)
  case Nil
  then show ?case by (simp add: same_shape_refl)
next
  case (Cons a xs)
  let ?g1 = "block_cell g gy a"
  have s1: "same_shape g ?g1" by (rule same_shape_block_cell)
  from Cons.IH [of ?g1] have
    s2: "same_shape ?g1 (foldl (\<lambda>g' gx. block_cell g' gy gx) ?g1 xs)"
    and v2: "\<forall>y < length ?g1. \<forall>x < length (?g1 ! y).
         foldl (\<lambda>g' gx. block_cell g' gy gx) ?g1 xs ! y ! x
           = (?g1 ! y ! x \<and> \<not> (y = gy \<and> x \<in> set xs))"
    by blast+
  have "same_shape g (foldl (\<lambda>g' gx. block_cell g' gy gx) g (a # xs))"
    using same_shape_trans [OF s1 s2] by simp
  moreover have "\<forall>y < length g. \<forall>x < length (g ! y).
         foldl (\<lambda>g' gx. block_cell g' gy gx) g (a # xs) ! y ! x
           = (g ! y ! x \<and> \<not> (y = gy \<and> x \<in> set (a # xs)))"
  proof (intro allI impI)
    fix y x assume y: "y < length g" and x: "x < length (g ! y)"
    have "y < length ?g1" and "x < length (?g1 ! y)"
      using s1 y x by (simp_all add: same_shape_def)
    with v2 have "foldl (\<lambda>g' gx. block_cell g' gy gx) ?g1 xs ! y ! x
           = (?g1 ! y ! x \<and> \<not> (y = gy \<and> x \<in> set xs))" by blast
    then show "foldl (\<lambda>g' gx. block_cell g' gy gx) g (a # xs) ! y ! x
           = (g ! y ! x \<and> \<not> (y = gy \<and> x \<in> set (a # xs)))"
      using block_cell_nth [OF y x, of gy a] by auto
  qed
  ultimately show ?case by blast
qed

lemma mark_rows:
  "same_shape g (foldl (\<lambda>g gy. foldl (\<lambda>g' gx. block_cell g' gy gx) g
                    [a ..< nat (min (int (grid_width g)) e)]) g ys)
   \<and> (\<forall>y < length g. \<forall>x < length (g ! y).
         foldl (\<lambda>g gy. foldl (\<lambda>g' gx. block_cell g' gy gx) g
                    [a ..< nat (min (int (grid_width g)) e)]) g ys ! y ! x
           = (g ! y ! x \<and> \<not> (y \<in> set ys \<and> a \<le> x \<and> x < nat (min (int (grid_width g)) e))))"
proof (induction ys arbitrary: g)
  case Nil
  then show ?case by (simp add: same_shape_refl)
next
  case (Cons r ys)
  let ?cols = "\<lambda>g. [a ..< nat (min (int (grid_width g)) e)]"
  let ?row = "\<lambda>g gy. foldl (\<lambda>g' gx. block_cell g' gy gx) g (?cols g)"
  let ?g1 = "?row g r"
  have s1: "same_shape g ?g1" and v1: "\<forall>y < length g. \<forall>x < length (g ! y).
         ?g1 ! y ! x = (g ! y ! x \<and> \<not> (y = r \<and> x \<in> set (?cols g)))"
    using mark_columns [of g r "?cols g"] by blast+
  have w: "grid_width ?g1 = grid_width g" by (rule same_shape_width [OF s1])
  from Cons.IH [of ?g1] have s2: "same_shape ?g1 (foldl ?row ?g1 ys)"
    and v2: "\<forall>y < length ?g1. \<forall>x < length (?g1 ! y).
         foldl ?row ?g1 ys ! y ! x
           = (?g1 ! y ! x \<and> \<not> (y \<in> set ys \<and> a \<le> x \<and> x < nat (min (int (grid_width ?g1)) e)))"
    by blast+
  have "same_shape g (foldl ?row g (r # ys))"
    using same_shape_trans [OF s1 s2] by simp
  moreover have "\<forall>y < length g. \<forall>x < length (g ! y).
         foldl ?row g (r # ys) ! y ! x
           = (g ! y ! x \<and> \<not> (y \<in> set (r # ys) \<and> a \<le> x \<and> x < nat (min (int (grid_width g)) e)))"
  proof (intro allI impI)
    fix y x assume y: "y < length g" and x: "x < length (g ! y)"
    have "y < length ?g1" and "x < length (?g1 ! y)"
      using s1 y x by (simp_all add: same_shape_def)
    with v2 have "foldl ?row ?g1 ys ! y ! x
           = (?g1 ! y ! x \<and> \<not> (y \<in> set ys \<and> a \<le> x \<and> x < nat (min (int (grid_width g)) e)))"
      unfolding w by blast
    moreover have "?g1 ! y ! x = (g ! y ! x \<and> \<not> (y = r \<and> x \<in> set (?cols g)))"
      using v1 y x by blast
    ultimately show "foldl ?row g (r # ys) ! y ! x
           = (g ! y ! x \<and> \<not> (y \<in> set (r # ys) \<and> a \<le> x \<and> x < nat (min (int (grid_width g)) e)))"
      by auto
  qed
  ultimately show ?case by blast
qed

lemma floor_bound:
  fixes g :: real
  assumes "0 < g"
  shows "nat (max 0 \<lfloor>a / g\<rfloor>) \<le> n \<longleftrightarrow> a < (real n + 1) * g"
proof -
  have "nat (max 0 \<lfloor>a / g\<rfloor>) \<le> n \<longleftrightarrow> \<lfloor>a / g\<rfloor> \<le> int n" by auto
  also have "\<dots> \<longleftrightarrow> a / g < real n + 1" by (simp add: floor_le_iff)
  also have "\<dots> \<longleftrightarrow> a < (real n + 1) * g" using assms by (simp add: pos_divide_less_eq)
  finally show ?thesis .
qed

lemma ceiling_bound:
  fixes g :: real
  assumes "0 < g" "n < m"
  shows "n < nat (min (int m) \<lceil>b / g\<rceil>) \<longleftrightarrow> real n * g < b"
proof -
  have "n < nat (min (int m) \<lceil>b / g\<rceil>) \<longleftrightarrow> int n < \<lceil>b / g\<rceil>" using assms(2) by auto
  also have "\<dots> \<longleftrightarrow> real n < b / g" by (simp add: less_ceiling_iff)
  also have "\<dots> \<longleftrightarrow> real n * g < b" using assms(1) by (simp add: pos_less_divide_eq)
  finally show ?thesis .
qed

lemma rectangular_nth: "rectangular grid \<Longrightarrow> gy < length grid \<Longrightarrow> length (grid ! gy) = grid_width grid"
  by (simp add: rectangular_def list_all_length)

lemma rectangular_same_shape: "rectangular g \<Longrightarrow> same_shape g g' \<Longrightarrow> rectangular g'"
  using same_shape_width [of g g']
  by (simp add: rectangular_def list_all_length same_shape_def)

lemma center_overlaps:
  assumes "0 < gridSize" "spec_cell_marked rect gridSize offsetX offsetY gx gy"
  shows "cell_overlaps rect gridSize offsetX offsetY gx gy"
proof -
  have "real gx * gridSize < (real gx + 1 / 2) * gridSize"
    "(real gx + 1 / 2) * gridSize < (real gx + 1) * gridSize"
    "real gy * gridSize < (real gy + 1 / 2) * gridSize"
    "(real gy + 1 / 2) * gridSize < (real gy + 1) * gridSize"
    using assms(1) by (simp_all add: algebra_simps)
  with assms(2) show ?thesis
    unfolding spec_cell_marked_def cell_overlaps_def pointInRectangle_def by simp
qed


text \<open>
  C6, amended. Let the rectangle's coordinates and extents, the two offsets and the
  cell size be integers of magnitude at most \<open>2^24\<close>, the cell size at least 1, and the
  grid rectangular. Then the rasterizer keeps the shape of the grid, and a cell of the
  grid is passable afterwards exactly if it was passable before and its extent does
  not meet the rectangle (translated into grid-local coordinates) on both axes. Every
  cell whose centre lies in the rectangle is among the cells it blocks.
\<close>

theorem markRectangleInGrid_cells:
  assumes "rectangular grid" "gy < length grid" "gx < grid_width grid"
    and "small_integer (rect_x rect)" "small_integer (rect_y rect)"
    and "small_integer (width rect)" "small_integer (height rect)"
    and "small_integer offsetX" "small_integer offsetY"
    and "small_integer gridSize" "1 \<le> gridSize"
  shows "length (markRectangleInGrid grid rect gridSize offsetX offsetY) = length grid
    \<and> rectangular (markRectangleInGrid grid rect gridSize offsetX offsetY)
    \<and> grid_width (markRectangleInGrid grid rect gridSize offsetX offsetY) = grid_width grid
    \<and> markRectangleInGrid grid rect gridSize offsetX offsetY ! gy ! gx
        = (grid ! gy ! gx \<and> \<not> cell_overlaps rect gridSize offsetX offsetY gx gy)
    \<and> (spec_cell_marked rect gridSize offsetX offsetY gx gy
         \<longrightarrow> cell_overlaps rect gridSize offsetX offsetY gx gy)"
proof -
  let ?a = "nat (max 0 \<lfloor>(rect_x rect - offsetX) / gridSize\<rfloor>)"
  let ?e = "\<lceil>(rect_x rect + width rect - offsetX) / gridSize\<rceil>"
  let ?ys = "[nat (max 0 \<lfloor>(rect_y rect - offsetY) / gridSize\<rfloor>)
               ..< nat (min (int (length grid)) \<lceil>(rect_y rect + height rect - offsetY) / gridSize\<rceil>)]"
  let ?res = "markRectangleInGrid grid rect gridSize offsetX offsetY"
  have pos: "0 < gridSize" using assms(11) by simp
  have exact:
    "\<lfloor>fl (fl (rect_x rect - offsetX) / gridSize)\<rfloor> = \<lfloor>(rect_x rect - offsetX) / gridSize\<rfloor>"
    "\<lfloor>fl (fl (rect_y rect - offsetY) / gridSize)\<rfloor> = \<lfloor>(rect_y rect - offsetY) / gridSize\<rfloor>"
    "\<lceil>fl (fl (fl (rect_x rect + width rect) - offsetX) / gridSize)\<rceil>
       = \<lceil>(rect_x rect + width rect - offsetX) / gridSize\<rceil>"
    "\<lceil>fl (fl (fl (rect_y rect + height rect) - offsetY) / gridSize)\<rceil>
       = \<lceil>(rect_y rect + height rect - offsetY) / gridSize\<rceil>"
    using assms(4-11) by (simp_all only: rasterizer_floor rasterizer_ceiling)
  have res: "?res = foldl (\<lambda>g gy. foldl (\<lambda>g' gx. block_cell g' gy gx) g
                    [?a ..< nat (min (int (grid_width g)) ?e)]) grid ?ys"
    unfolding markRectangleInGrid_def Let_def exact ..
  have shape: "same_shape grid ?res"
    and vals: "\<forall>y < length grid. \<forall>x < length (grid ! y).
         ?res ! y ! x = (grid ! y ! x \<and> \<not> (y \<in> set ?ys \<and> ?a \<le> x \<and> x < nat (min (int (grid_width grid)) ?e)))"
    unfolding res using mark_rows [of grid ?a ?e ?ys] by blast+
  have xl: "gx < length (grid ! gy)"
    using rectangular_nth [OF assms(1,2)] assms(3) by simp
  have raw: "?res ! gy ! gx = (grid ! gy ! gx \<and> \<not> (gy \<in> set ?ys \<and> ?a \<le> gx \<and> gx < nat (min (int (grid_width grid)) ?e)))"
    using vals assms(2) xl by blast
  have range: "(gy \<in> set ?ys \<and> ?a \<le> gx \<and> gx < nat (min (int (grid_width grid)) ?e))
      \<longleftrightarrow> cell_overlaps rect gridSize offsetX offsetY gx gy"
    using floor_bound [OF pos, of "rect_x rect - offsetX" gx]
      floor_bound [OF pos, of "rect_y rect - offsetY" gy]
      ceiling_bound [OF pos assms(3), of "rect_x rect + width rect - offsetX"]
      ceiling_bound [OF pos assms(2), of "rect_y rect + height rect - offsetY"]
    by (auto simp: cell_overlaps_def)
  have cellv: "?res ! gy ! gx
        = (grid ! gy ! gx \<and> \<not> cell_overlaps rect gridSize offsetX offsetY gx gy)"
    using raw unfolding range .
  have len: "length ?res = length grid"
    using shape by (simp add: same_shape_def)
  have centre: "spec_cell_marked rect gridSize offsetX offsetY gx gy
         \<longrightarrow> cell_overlaps rect gridSize offsetX offsetY gx gy"
    using center_overlaps [OF pos] by blast
  from len rectangular_same_shape [OF assms(1) shape] same_shape_width [OF shape] cellv centre
  show ?thesis by blast
qed

theorem markRectangleInGrid_cells_witness:
  "rectangular (replicate 10 (replicate 10 True))
   \<and> 4 < length (replicate 10 (replicate 10 True :: bool list))
   \<and> 3 < grid_width (replicate 10 (replicate 10 True))
   \<and> small_integer 46 \<and> small_integer 8 \<and> small_integer 0 \<and> small_integer 10
   \<and> (1 :: real) \<le> 10
   \<and> markRectangleInGrid (replicate 10 (replicate 10 True))
        \<lparr>rect_x = 46, rect_y = 46, width = 8, height = 8\<rparr> 10 0 0 ! 4 ! 3 = True
   \<and> length (markRectangleInGrid (replicate 10 (replicate 10 True))
        \<lparr>rect_x = 46, rect_y = 46, width = 8, height = 8\<rparr> 10 0 0) = 10"
proof -
  have r: "rectangular (replicate 10 (replicate 10 True))" by code_simp
  have y: "4 < length (replicate 10 (replicate 10 True :: bool list))" by simp
  have x: "3 < grid_width (replicate 10 (replicate 10 True))" by code_simp
  have s: "small_integer 46" "small_integer 8" "small_integer 0" "small_integer 10"
    by (simp_all add: small_integer_def)
  have g: "(1 :: real) \<le> 10" by simp
  have c: "\<not> cell_overlaps \<lparr>rect_x = 46, rect_y = 46, width = 8, height = 8\<rparr> 10 0 0 3 4"
    by (simp add: cell_overlaps_def)
  have v: "replicate 10 (replicate 10 True) ! 4 ! 3" by simp
  show ?thesis
    using markRectangleInGrid_cells [OF r y x, of "\<lparr>rect_x = 46, rect_y = 46, width = 8, height = 8\<rparr>" 0 0 10]
      r x s g c v
    by simp
qed

section \<open>The simplifier\<close>

lemma farthest_loop_ge: "farthest \<le> farthest_loop path current farthest"
  by (induction path current farthest rule: farthest_loop.induct)
     (subst farthest_loop.simps, auto)

text \<open>
  C7, as the spec states it, fails: a polyline that returns to a point it has visited
  is simplified further by a second pass. The polyline (0,0), (1,0), (1,1), (1,0)
  becomes (0,0), (1,0), (1,0), and that becomes (0,0), (1,0).
\<close>

theorem optimizePath_not_idempotent:
  "optimizePath [pt 0 0, pt 1 0, pt 1 1, pt 1 0] = [pt 0 0, pt 1 0, pt 1 0]
   \<and> optimizePath (optimizePath [pt 0 0, pt 1 0, pt 1 1, pt 1 0]) = [pt 0 0, pt 1 0]
   \<and> optimizePath (optimizePath [pt 0 0, pt 1 0, pt 1 1, pt 1 0])
       \<noteq> optimizePath [pt 0 0, pt 1 0, pt 1 1, pt 1 0]"
  by code_simp

text \<open>
  Distinct points alone do not give idempotence either, because of the tolerance: the
  last point below is collinear with the first two only within \<open>1e-5\<close>.
\<close>

lemma optimizePath_tolerance_example:
  "distinct [pt 0 0, pt 10 0, pt 10 1, pt 10 (1 / 16777216)]
   \<and> optimizePath [pt 0 0, pt 10 0, pt 10 1, pt 10 (1 / 16777216)]
       = [pt 0 0, pt 10 0, pt 10 (1 / 16777216)]
   \<and> optimizePath [pt 0 0, pt 10 0, pt 10 (1 / 16777216)] = [pt 0 0, pt 10 (1 / 16777216)]"
  by code_simp

text \<open>
  Nor do distinct integer points of any size: beyond \<open>2^53\<close> the products of the test
  are rounded. The first, second and fourth point below have the cross product 2, the
  test finds the area 0, and a second pass removes the second point.
\<close>

lemma optimizePath_rounding_example:
  "optimizePath [pt 0 0, pt 73963601 132924625, pt 87512194 157273651, pt 101060787 181622677]
     = [pt 0 0, pt 73963601 132924625, pt 101060787 181622677]
   \<and> optimizePath [pt 0 0, pt 73963601 132924625, pt 101060787 181622677]
     = [pt 0 0, pt 101060787 181622677]
   \<and> cross3 (pt 0 0) (pt 73963601 132924625) (pt 101060787 181622677) = 2"
  by code_simp

text \<open>
  With small integer coordinates every difference and product of the test is an
  integer below \<open>2^53\<close>, which the rounding leaves as it is, so the test with tolerance
  is the exact test.
\<close>

lemma tolerance_bounds: "0 < collinearity_tolerance \<and> collinearity_tolerance < 1"
  by (simp add: collinearity_tolerance_code)

lemma small_product:
  fixes u v :: real
  assumes "u \<in> \<int>" "\<bar>u\<bar> \<le> 2 ^ 25" "v \<in> \<int>" "\<bar>v\<bar> \<le> 2 ^ 25"
  shows "u * v \<in> \<int>" "\<bar>u * v\<bar> \<le> 2 ^ 50"
proof -
  show "u * v \<in> \<int>" using assms(1,3) by simp
  have "\<bar>u\<bar> * \<bar>v\<bar> \<le> 2 ^ 25 * 2 ^ 25"
    using assms(2,4) by (intro mult_mono) simp_all
  then show "\<bar>u * v\<bar> \<le> 2 ^ 50" by (simp add: abs_mult)
qed

lemma collinear_exact:
  assumes "integer_point a" "integer_point b" "integer_point c"
  shows "arePointsCollinear a b c \<longleftrightarrow> cross3 a b c = 0"
proof -
  define x2 where "x2 = pt_x b - pt_x a"
  define y3 where "y3 = pt_y c - pt_y a"
  define x3 where "x3 = pt_x c - pt_x a"
  define y2 where "y2 = pt_y b - pt_y a"
  have d: "x2 \<in> \<int>" "\<bar>x2\<bar> \<le> 2 ^ 25" "y3 \<in> \<int>" "\<bar>y3\<bar> \<le> 2 ^ 25"
    "x3 \<in> \<int>" "\<bar>x3\<bar> \<le> 2 ^ 25" "y2 \<in> \<int>" "\<bar>y2\<bar> \<le> 2 ^ 25"
    using assms small_integer_diff
    unfolding integer_point_def x2_def y3_def x3_def y2_def by blast+
  have fd: "fl x2 = x2" "fl y3 = y3" "fl x3 = x3" "fl y2 = y2"
    using d by (intro fl_Ints; simp)+
  note p1 = small_product [OF d(1,2,3,4)] and p2 = small_product [OF d(5,6,7,8)]
  have fp: "fl (x2 * y3) = x2 * y3" "fl (x3 * y2) = x3 * y2"
    using p1 p2 by (intro fl_Ints; simp)+
  have ai: "x2 * y3 - x3 * y2 \<in> \<int>" using p1(1) p2(1) by simp
  have "\<bar>x2 * y3 - x3 * y2\<bar> \<le> \<bar>x2 * y3\<bar> + \<bar>x3 * y2\<bar>" by (rule abs_triangle_ineq4)
  also have "\<dots> \<le> 2 ^ 50 + 2 ^ 50" using p1(2) p2(2) by (rule add_mono)
  finally have ab: "\<bar>x2 * y3 - x3 * y2\<bar> < 2 ^ 53" by simp
  have fa: "fl (x2 * y3 - x3 * y2) = x2 * y3 - x3 * y2"
    using ai ab by (rule fl_Ints)
  have area: "arePointsCollinear a b c \<longleftrightarrow> \<bar>x2 * y3 - x3 * y2\<bar> < collinearity_tolerance"
    unfolding arePointsCollinear_def x2_def [symmetric] y3_def [symmetric]
      x3_def [symmetric] y2_def [symmetric] fd fp fa ..
  from ai obtain z :: int where z: "x2 * y3 - x3 * y2 = of_int z" by (auto elim: Ints_cases)
  have "\<bar>real_of_int z\<bar> < collinearity_tolerance \<longleftrightarrow> z = 0"
  proof
    assume "\<bar>real_of_int z\<bar> < collinearity_tolerance"
    then have "\<bar>real_of_int z\<bar> < 1" using tolerance_bounds by linarith
    then have "\<bar>z\<bar> < 1" by linarith
    then show "z = 0" by simp
  next
    assume "z = 0"
    then show "\<bar>real_of_int z\<bar> < collinearity_tolerance" using tolerance_bounds by simp
  qed
  then show ?thesis
    unfolding area z using z by (simp add: cross3_def x2_def y3_def x3_def y2_def)
qed

lemma parallel_trans:
  fixes a1 a2 b1 b2 c1 c2 :: real
  assumes "a1 * c2 - a2 * c1 = 0" "b1 * c2 - b2 * c1 = 0" "c1 \<noteq> 0 \<or> c2 \<noteq> 0"
  shows "a1 * b2 - a2 * b1 = 0"
proof -
  have "c1 * (a1 * b2 - a2 * b1) = 0" using assms(1,2) by algebra
  moreover have "c2 * (a1 * b2 - a2 * b1) = 0" using assms(1,2) by algebra
  ultimately show ?thesis using assms(3) by auto
qed

lemma farthest_loop_props:
  assumes "f < length path"
  shows "farthest_loop path c f < length path
       \<and> (\<forall>k. f \<le> k \<and> k < farthest_loop path c f \<longrightarrow>
              arePointsCollinear (path ! c) (path ! k) (path ! Suc k))
       \<and> (Suc (farthest_loop path c f) < length path \<longrightarrow>
              \<not> arePointsCollinear (path ! c) (path ! farthest_loop path c f)
                   (path ! Suc (farthest_loop path c f)))"
  using assms
proof (induction path c f rule: farthest_loop.induct)
  case (1 path current farthest)
  show ?case
  proof (cases "Suc farthest < length path \<and>
                arePointsCollinear (path ! current) (path ! farthest) (path ! Suc farthest)")
    case True
    then have eq: "farthest_loop path current farthest = farthest_loop path current (Suc farthest)"
      by (subst farthest_loop.simps) simp
    from True 1 have ih: "farthest_loop path current (Suc farthest) < length path
       \<and> (\<forall>k. Suc farthest \<le> k \<and> k < farthest_loop path current (Suc farthest) \<longrightarrow>
              arePointsCollinear (path ! current) (path ! k) (path ! Suc k))
       \<and> (Suc (farthest_loop path current (Suc farthest)) < length path \<longrightarrow>
              \<not> arePointsCollinear (path ! current) (path ! farthest_loop path current (Suc farthest))
                   (path ! Suc (farthest_loop path current (Suc farthest))))"
      by simp
    have "\<And>k. farthest \<le> k \<Longrightarrow> k < farthest_loop path current (Suc farthest) \<Longrightarrow>
              arePointsCollinear (path ! current) (path ! k) (path ! Suc k)"
    proof -
      fix k assume k: "farthest \<le> k" "k < farthest_loop path current (Suc farthest)"
      show "arePointsCollinear (path ! current) (path ! k) (path ! Suc k)"
      proof (cases "k = farthest")
        case True
        with \<open>Suc farthest < length path \<and> _\<close> show ?thesis by simp
      next
        case False
        with k ih show ?thesis by simp
      qed
    qed
    with ih show ?thesis unfolding eq by blast
  next
    case False
    then have eq: "farthest_loop path current farthest = farthest"
      by (subst farthest_loop.simps) auto
    from False 1(2) show ?thesis unfolding eq by auto
  qed
qed


lemma Point_neq: "(p :: Point) \<noteq> q \<Longrightarrow> pt_x p - pt_x q \<noteq> 0 \<or> pt_y p - pt_y q \<noteq> 0"
  by (cases p; cases q) auto

lemma run_parallel:
  assumes d: "distinct path"
    and c: "c < length path"
    and b: "b < c"
    and run: "\<forall>k. Suc b \<le> k \<and> k < c \<longrightarrow> cross3 (path ! b) (path ! k) (path ! Suc k) = 0"
  shows "cross3 (path ! b) (path ! Suc b) (path ! c) = 0"
  using c b run
proof (induction c)
  case 0
  then show ?case by simp
next
  case (Suc c)
  show ?case
  proof (cases "c = b")
    case True
    then show ?thesis by (simp add: cross3_def)
  next
    case False
    with Suc.prems have bc: "b < c" and cl: "c < length path" by simp_all
    have ih: "cross3 (path ! b) (path ! Suc b) (path ! c) = 0"
      using Suc.IH [OF cl bc] Suc.prems(3) by simp
    have step: "cross3 (path ! b) (path ! c) (path ! Suc c) = 0"
      using Suc.prems(3) bc by simp
    have ne: "path ! c \<noteq> path ! b"
      using d bc cl by (simp add: nth_eq_iff_index_eq)
    have nz: "pt_x (path ! c) - pt_x (path ! b) \<noteq> 0 \<or> pt_y (path ! c) - pt_y (path ! b) \<noteq> 0"
      by (rule Point_neq [OF ne])
    have "(pt_x (path ! Suc b) - pt_x (path ! b)) * (pt_y (path ! Suc c) - pt_y (path ! b))
          - (pt_y (path ! Suc b) - pt_y (path ! b)) * (pt_x (path ! Suc c) - pt_x (path ! b)) = 0"
    proof (rule parallel_trans [OF _ _ nz])
      show "(pt_x (path ! Suc b) - pt_x (path ! b)) * (pt_y (path ! c) - pt_y (path ! b))
          - (pt_y (path ! Suc b) - pt_y (path ! b)) * (pt_x (path ! c) - pt_x (path ! b)) = 0"
        using ih unfolding cross3_def by algebra
      show "(pt_x (path ! Suc c) - pt_x (path ! b)) * (pt_y (path ! c) - pt_y (path ! b))
          - (pt_y (path ! Suc c) - pt_y (path ! b)) * (pt_x (path ! c) - pt_x (path ! b)) = 0"
        using step unfolding cross3_def by algebra
    qed
    then show ?thesis unfolding cross3_def by algebra
  qed
qed

lemma bend_stays:
  assumes d: "distinct path"
    and c: "c < length path"
    and b: "b < c"
    and a: "a < b"
    and bend: "cross3 (path ! a) (path ! b) (path ! Suc b) \<noteq> 0"
    and run: "\<forall>k. Suc b \<le> k \<and> k < c \<longrightarrow> cross3 (path ! b) (path ! k) (path ! Suc k) = 0"
  shows "cross3 (path ! a) (path ! b) (path ! c) \<noteq> 0"
proof
  assume z: "cross3 (path ! a) (path ! b) (path ! c) = 0"
  have par: "cross3 (path ! b) (path ! Suc b) (path ! c) = 0"
    by (rule run_parallel [OF d c b run])
  have ne: "path ! c \<noteq> path ! b"
    using d b c by (simp add: nth_eq_iff_index_eq)
  have nz: "pt_x (path ! c) - pt_x (path ! b) \<noteq> 0 \<or> pt_y (path ! c) - pt_y (path ! b) \<noteq> 0"
    by (rule Point_neq [OF ne])
  have "(pt_x (path ! a) - pt_x (path ! b)) * (pt_y (path ! Suc b) - pt_y (path ! b))
          - (pt_y (path ! a) - pt_y (path ! b)) * (pt_x (path ! Suc b) - pt_x (path ! b)) = 0"
  proof (rule parallel_trans [OF _ _ nz])
    show "(pt_x (path ! a) - pt_x (path ! b)) * (pt_y (path ! c) - pt_y (path ! b))
          - (pt_y (path ! a) - pt_y (path ! b)) * (pt_x (path ! c) - pt_x (path ! b)) = 0"
      using z unfolding cross3_def by algebra
    show "(pt_x (path ! Suc b) - pt_x (path ! b)) * (pt_y (path ! c) - pt_y (path ! b))
          - (pt_y (path ! Suc b) - pt_y (path ! b)) * (pt_x (path ! c) - pt_x (path ! b)) = 0"
      using par unfolding cross3_def by algebra
  qed
  then have "cross3 (path ! a) (path ! b) (path ! Suc b) = 0"
    unfolding cross3_def by algebra
  with bend show False by simp
qed


lemma optimize_loop_indices:
  "optimize_loop path current optimized = optimized @ map ((!) path) (opt_indices path current)"
proof (induction path current optimized rule: optimize_loop.induct)
  case (1 path current optimized)
  show ?case
  proof (cases "Suc current < length path")
    case True
    with 1 show ?thesis
      by (subst optimize_loop.simps, subst opt_indices.simps) (simp add: Let_def)
  next
    case False
    then show ?thesis
      by (subst optimize_loop.simps, subst opt_indices.simps) simp
  qed
qed

lemma no_collinear_triple_nth:
  "no_collinear_triple q \<Longrightarrow> Suc (Suc j) < length q \<Longrightarrow>
     \<not> arePointsCollinear (q ! j) (q ! Suc j) (q ! Suc (Suc j))"
proof (induction q arbitrary: j rule: no_collinear_triple.induct)
  case (1 a b c rest)
  then show ?case by (cases j) simp_all
qed simp_all

lemma opt_indices_fixed:
  "no_collinear_triple q \<Longrightarrow> opt_indices q current = [Suc current ..< length q]"
proof (induction q current rule: opt_indices.induct)
  case (1 path current)
  show ?case
  proof (cases "Suc current < length path")
    case True
    have stop: "farthest_loop path current (Suc current) = Suc current"
      using no_collinear_triple_nth [OF "1.prems", of current]
      by (subst farthest_loop.simps) auto
    have "opt_indices path current = Suc current # opt_indices path (Suc current)"
      using True stop by (subst opt_indices.simps) (simp add: Let_def)
    also have "opt_indices path (Suc current) = [Suc (Suc current) ..< length path]"
      using "1.IH" [OF True refl] "1.prems" stop by simp
    finally show ?thesis using True by (simp add: upt_conv_Cons)
  next
    case False
    then show ?thesis by (subst opt_indices.simps) simp
  qed
qed


lemma bends_not_collinear:
  "distinct path \<Longrightarrow> \<forall>q \<in> set path. integer_point q \<Longrightarrow>
   prev < current \<Longrightarrow> current < length path \<Longrightarrow>
   current = farthest_loop path prev (Suc prev) \<Longrightarrow>
   no_collinear_triple
     (path ! prev # path ! current # map ((!) path) (opt_indices path current))"
proof (induction path current arbitrary: prev rule: opt_indices.induct)
  case (1 path current)
  note d = "1.prems"(1) and ints = "1.prems"(2) and pc = "1.prems"(3)
    and cl = "1.prems"(4) and cf = "1.prems"(5)
  have exact: "\<And>i j k. i < length path \<Longrightarrow> j < length path \<Longrightarrow> k < length path \<Longrightarrow>
      arePointsCollinear (path ! i) (path ! j) (path ! k)
        \<longleftrightarrow> cross3 (path ! i) (path ! j) (path ! k) = 0"
    using ints by (intro collinear_exact) simp_all
  show ?case
  proof (cases "Suc current < length path")
    case False
    then show ?thesis by (subst opt_indices.simps) simp
  next
    case True
    define f where "f = farthest_loop path current (Suc current)"
    have fp: "f < length path"
      "\<forall>k. Suc current \<le> k \<and> k < f \<longrightarrow> arePointsCollinear (path ! current) (path ! k) (path ! Suc k)"
      using farthest_loop_props [OF True, of current] unfolding f_def by blast+
    have fge: "Suc current \<le> f" unfolding f_def by (rule farthest_loop_ge)
    have "Suc prev < length path" using pc cl by simp
    from farthest_loop_props [OF this, of prev] cf True
    have bend: "\<not> arePointsCollinear (path ! prev) (path ! current) (path ! Suc current)"
      by simp
    have "cross3 (path ! prev) (path ! current) (path ! f) \<noteq> 0"
    proof (rule bend_stays [OF d fp(1)])
      show "current < f" using fge by simp
      show "prev < current" by (rule pc)
      show "cross3 (path ! prev) (path ! current) (path ! Suc current) \<noteq> 0"
        using bend exact [of prev current "Suc current"] True pc cl by simp
      show "\<forall>k. Suc current \<le> k \<and> k < f \<longrightarrow> cross3 (path ! current) (path ! k) (path ! Suc k) = 0"
      proof (intro allI impI)
        fix k assume k: "Suc current \<le> k \<and> k < f"
        then have "arePointsCollinear (path ! current) (path ! k) (path ! Suc k)"
          using fp(2) by simp
        then show "cross3 (path ! current) (path ! k) (path ! Suc k) = 0"
          using exact [of current k "Suc k"] k fp(1) True by simp
      qed
    qed
    then have nc: "\<not> arePointsCollinear (path ! prev) (path ! current) (path ! f)"
      using exact [of prev current f] fp(1) pc cl by simp
    have "current < f" using fge by simp
    then have rest: "no_collinear_triple (path ! current # path ! f # map ((!) path) (opt_indices path f))"
      using "1.IH" [OF True f_def d ints _ fp(1), of current] by (simp add: f_def)
    have "opt_indices path current = f # opt_indices path f"
      using True by (subst opt_indices.simps) (simp add: Let_def f_def)
    with nc rest show ?thesis by simp
  qed
qed

lemma optimizePath_fixed:
  assumes "no_collinear_triple q"
  shows "optimizePath q = q"
proof (cases "length q \<le> 2")
  case True
  then show ?thesis by (simp add: optimizePath_def)
next
  case False
  then have "optimizePath q = q ! 0 # map ((!) q) [Suc 0 ..< length q]"
    by (simp add: optimizePath_def optimize_loop_indices opt_indices_fixed [OF assms])
  also have "\<dots> = map ((!) q) (0 # [Suc 0 ..< length q])" by simp
  also have "0 # [Suc 0 ..< length q] = [0 ..< length q]"
  proof -
    have "0 < length q" using False by (cases q) simp_all
    then show ?thesis by (rule upt_conv_Cons [symmetric])
  qed
  finally show ?thesis by (simp add: map_nth)
qed

lemma optimizePath_no_collinear_triple:
  assumes d: "distinct path"
    and ints: "\<forall>q \<in> set path. integer_point q"
  shows "no_collinear_triple (optimizePath path)"
proof (cases "length path \<le> 2")
  case True
  then have "optimizePath path = path" by (simp add: optimizePath_def)
  moreover from True have "no_collinear_triple path"
    by (cases path rule: no_collinear_triple.cases) simp_all
  ultimately show ?thesis by simp
next
  case False
  define f where "f = farthest_loop path 0 (Suc 0)"
  have fge: "Suc 0 \<le> f" unfolding f_def by (rule farthest_loop_ge)
  have fl: "f < length path"
    using farthest_loop_props [of "Suc 0" path 0] False unfolding f_def by simp
  have "opt_indices path 0 = f # opt_indices path f"
    using False by (subst opt_indices.simps) (simp add: Let_def f_def)
  then have "optimizePath path = path ! 0 # path ! f # map ((!) path) (opt_indices path f)"
    using False by (simp add: optimizePath_def optimize_loop_indices)
  moreover have "no_collinear_triple (path ! 0 # path ! f # map ((!) path) (opt_indices path f))"
    using bends_not_collinear [OF d ints _ fl, of 0] fge by (simp add: f_def)
  ultimately show ?thesis by simp
qed


text \<open>
  C7, amended. A polyline of at most two points is returned unchanged, and the
  simplifier is idempotent on every polyline whose points are pairwise distinct and
  have integer coordinates of magnitude at most \<open>2^24\<close>.
\<close>

theorem optimizePath_idempotent:
  "(length p \<le> 2 \<longrightarrow> optimizePath p = p)
   \<and> (distinct p \<and> (\<forall>q \<in> set p. integer_point q)
        \<longrightarrow> optimizePath (optimizePath p) = optimizePath p)"
  using optimizePath_fixed [OF optimizePath_no_collinear_triple, of p]
  by (simp add: optimizePath_def)

theorem optimizePath_idempotent_witness:
  "distinct [pt 0 0, pt 10 0, pt 20 0, pt 20 10]
   \<and> integer_point (pt 0 0) \<and> integer_point (pt 10 0)
   \<and> integer_point (pt 20 0) \<and> integer_point (pt 20 10)
   \<and> optimizePath [pt 0 0, pt 10 0, pt 20 0, pt 20 10] = [pt 0 0, pt 20 0, pt 20 10]
   \<and> optimizePath (optimizePath [pt 0 0, pt 10 0, pt 20 0, pt 20 10])
       = optimizePath [pt 0 0, pt 10 0, pt 20 0, pt 20 10]
   \<and> length [pt 0 0, pt 10 0] \<le> 2 \<and> optimizePath [pt 0 0, pt 10 0] = [pt 0 0, pt 10 0]"
proof -
  have d: "distinct [pt 0 0, pt 10 0, pt 20 0, pt 20 10]" by (simp add: pt_def)
  have i: "integer_point (pt 0 0)" "integer_point (pt 10 0)"
    "integer_point (pt 20 0)" "integer_point (pt 20 10)"
    by (simp_all add: pt_def integer_point_def small_integer_def)
  have v: "optimizePath [pt 0 0, pt 10 0, pt 20 0, pt 20 10] = [pt 0 0, pt 20 0, pt 20 10]"
    by code_simp
  have l: "length [pt 0 0, pt 10 0] \<le> 2" by simp
  from optimizePath_idempotent [of "[pt 0 0, pt 10 0, pt 20 0, pt 20 10]"] d i
  have "optimizePath (optimizePath [pt 0 0, pt 10 0, pt 20 0, pt 20 10])
       = optimizePath [pt 0 0, pt 10 0, pt 20 0, pt 20 10]" by simp
  moreover from optimizePath_idempotent [of "[pt 0 0, pt 10 0]"] l
  have "optimizePath [pt 0 0, pt 10 0] = [pt 0 0, pt 10 0]" by blast
  ultimately show ?thesis using d i v l by blast
qed

section \<open>The search returns\<close>

lemma finite_unseen: "finite (unseen grid st)"
  by (simp add: unseen_def grid_cells_def)

lemma relax_neighbor_measure:
  "search_measure grid (relax_neighbor grid gridEnd cur st nb) \<le> search_measure grid st"
proof (cases "\<not> skip_neighbor grid (closedSet st) nb
    \<and> (case gScores st nb of None \<Rightarrow> True | Some g \<Rightarrow> gScore cur + 1 < g)
    \<and> \<not> list_ex (\<lambda>node. point node = nb) (openSet st)")
  case True
  then have nb: "nb \<in> unseen grid st"
    by (cases nb) (auto simp: unseen_def grid_cells_def skip_neighbor_def list_ex_iff)
  have eq: "unseen grid (relax_neighbor grid gridEnd cur st nb) = unseen grid st - {nb}"
    using True by (auto simp: relax_neighbor_def unseen_def Let_def split: option.splits)
  have "card (unseen grid st - {nb}) < card (unseen grid st)"
    using nb finite_unseen by (intro card_Diff1_less)
  moreover have "length (openSet (relax_neighbor grid gridEnd cur st nb)) = Suc (length (openSet st))"
    using True by (auto simp: relax_neighbor_def Let_def split: option.splits)
  ultimately show ?thesis
    unfolding search_measure_def eq by simp
next
  case False
  then have "openSet (relax_neighbor grid gridEnd cur st nb) = openSet st"
    and "closedSet (relax_neighbor grid gridEnd cur st nb) = closedSet st"
    by (auto simp: relax_neighbor_def Let_def split: option.splits)
  then show ?thesis by (simp add: search_measure_def unseen_def)
qed

lemma relax_neighbor_links:
  assumes ok: "links_ok st"
    and cur: "gScores st (point cur) = Some a" "a \<le> gScore cur"
    and ne: "nb \<noteq> point cur"
  shows "links_ok (relax_neighbor grid gridEnd cur st nb)
       \<and> gScores (relax_neighbor grid gridEnd cur st nb) (point cur) = Some a"
proof (cases "\<not> skip_neighbor grid (closedSet st) nb
    \<and> (case gScores st nb of None \<Rightarrow> True | Some g \<Rightarrow> gScore cur + 1 < g)")
  case False
  then have "relax_neighbor grid gridEnd cur st nb = st"
    by (auto simp: relax_neighbor_def Let_def split: option.splits)
  with ok cur show ?thesis by simp
next
  case True
  let ?t = "gScore cur + 1"
  let ?st' = "relax_neighbor grid gridEnd cur st nb"
  have g': "gScores ?st' = (gScores st)(nb \<mapsto> ?t)"
    and p': "parents ?st' = (parents st)(nb \<mapsto> Some (point cur))"
    and o': "set (openSet ?st') \<subseteq> set (openSet st) \<union>
               {\<lparr>point = nb, gScore = ?t, fScore = ?t + heuristic nb gridEnd,
                 parent = Some (point cur)\<rparr>}"
    using True by (auto simp: relax_neighbor_def Let_def split: option.splits)
  have lower: "\<And>b. gScores st nb = Some b \<Longrightarrow> ?t < b"
    using True by (auto split: option.splits)
  have open_ok: "\<forall>n \<in> set (openSet ?st'). \<exists>a. gScores ?st' (point n) = Some a \<and> a \<le> gScore n"
  proof
    fix n assume "n \<in> set (openSet ?st')"
    with o' consider "n \<in> set (openSet st)"
      | "n = \<lparr>point = nb, gScore = ?t, fScore = ?t + heuristic nb gridEnd, parent = Some (point cur)\<rparr>"
      by blast
    then show "\<exists>a. gScores ?st' (point n) = Some a \<and> a \<le> gScore n"
    proof cases
      case 1
      with ok obtain b where b: "gScores st (point n) = Some b" "b \<le> gScore n"
        unfolding links_ok_def by blast
      show ?thesis
      proof (cases "point n = nb")
        case True
        with b lower [of b] show ?thesis by (simp add: g')
      next
        case False
        with b show ?thesis by (simp add: g')
      qed
    next
      case 2
      then show ?thesis by (simp add: g')
    qed
  qed
  have chain_ok: "\<forall>c p. parents ?st' c = Some (Some p) \<longrightarrow>
        (\<exists>a b. gScores ?st' p = Some a \<and> gScores ?st' c = Some b \<and> a < b)"
  proof (intro allI impI)
    fix c p assume cp: "parents ?st' c = Some (Some p)"
    show "\<exists>a b. gScores ?st' p = Some a \<and> gScores ?st' c = Some b \<and> a < b"
    proof (cases "c = nb")
      case True
      with cp have "p = point cur" by (simp add: p')
      with True cur ne show ?thesis by (simp add: g')
    next
      case False
      with cp have "parents st c = Some (Some p)" by (simp add: p')
      with ok obtain x y where xy: "gScores st p = Some x" "gScores st c = Some y" "x < y"
        unfolding links_ok_def by blast
      show ?thesis
      proof (cases "p = nb")
        case True
        with xy lower [of x] False show ?thesis by (simp add: g')
      next
        case pn: False
        with xy False show ?thesis by (simp add: g')
      qed
    qed
  qed
  from open_ok chain_ok cur ne show ?thesis
    by (simp add: links_ok_def g')
qed

lemma relax_all:
  assumes "\<forall>nb \<in> set nbs. nb \<noteq> point cur"
  shows "links_ok st \<Longrightarrow> gScores st (point cur) = Some a \<Longrightarrow> a \<le> gScore cur \<Longrightarrow>
         links_ok (foldl (relax_neighbor grid gridEnd cur) st nbs)
         \<and> search_measure grid (foldl (relax_neighbor grid gridEnd cur) st nbs)
             \<le> search_measure grid st"
  using assms
proof (induction nbs arbitrary: st)
  case Nil
  then show ?case by simp
next
  case (Cons nb nbs)
  let ?st1 = "relax_neighbor grid gridEnd cur st nb"
  have ne: "nb \<noteq> point cur" using Cons.prems(4) by simp
  from relax_neighbor_links [OF Cons.prems(1,2,3) ne, of grid gridEnd]
  have l1: "links_ok ?st1" and g1: "gScores ?st1 (point cur) = Some a" by blast+
  have "\<forall>nb \<in> set nbs. nb \<noteq> point cur" using Cons.prems(4) by simp
  from Cons.IH [OF l1 g1 Cons.prems(3) this]
  have "links_ok (foldl (relax_neighbor grid gridEnd cur) ?st1 nbs)"
    and "search_measure grid (foldl (relax_neighbor grid gridEnd cur) ?st1 nbs)
           \<le> search_measure grid ?st1" by blast+
  with relax_neighbor_measure [of grid gridEnd cur st nb] show ?case by simp
qed

lemma reconstruct_loop_returns:
  assumes "links_ok st"
  shows "gScores st c = Some a \<Longrightarrow> \<exists>r. reconstruct_loop (parents st) gridSize (Some c) path = Some r"
proof (induction a arbitrary: c path rule: less_induct)
  case (less a)
  show ?case
  proof (cases "parents st c")
    case None
    then show ?thesis
      by (subst reconstruct_loop.simps, simp, subst reconstruct_loop.simps, simp)
  next
    case (Some po)
    show ?thesis
    proof (cases po)
      case None
      with Some show ?thesis
        by (subst reconstruct_loop.simps, simp, subst reconstruct_loop.simps, simp)
    next
      case (Some p)
      with \<open>parents st c = Some po\<close> have cp: "parents st c = Some (Some p)" by simp
      with assms less.prems obtain b where b: "gScores st p = Some b" "b < a"
        unfolding links_ok_def by fastforce
      from less.IH [OF b(2) b(1)] obtain r
        where "reconstruct_loop (parents st) gridSize (Some p) (scale_cell gridSize c # path) = Some r"
        by blast
      with cp show ?thesis
        by (subst reconstruct_loop.simps) simp
    qed
  qed
qed

lemma neighbors_differ: "\<forall>nb \<in> set (neighbors_of c). nb \<noteq> c"
  by (cases c) (simp add: neighbors_of_def)

lemma astar_loop_returns:
  "links_ok st \<Longrightarrow> \<exists>r. astar_loop grid gridEnd gridSize st = Some r"
proof (induction "search_measure grid st" arbitrary: st rule: less_induct)
  case less
  show ?case
  proof (cases "sort_key fScore (openSet st)")
    case Nil
    then show ?thesis by (subst astar_loop.simps) simp
  next
    case (Cons current rest)
    have seteq: "set (openSet st) = insert current (set rest)"
      using arg_cong [OF Cons, of set] by simp
    have len: "length (openSet st) = Suc (length rest)"
      using arg_cong [OF Cons, of length] by simp
    from less.prems seteq obtain a where a: "gScores st (point current) = Some a" "a \<le> gScore current"
      unfolding links_ok_def by auto
    show ?thesis
    proof (cases "point current = gridEnd")
      case True
      from reconstruct_loop_returns [OF less.prems a(1), of gridSize "[]"]
      show ?thesis using Cons True
        by (subst astar_loop.simps) (simp add: reconstructPath_def)
    next
      case False
      let ?st0 = "st\<lparr>openSet := rest, closedSet := insert (point current) (closedSet st)\<rparr>"
      let ?st1 = "foldl (relax_neighbor grid gridEnd current) ?st0 (neighbors_of (point current))"
      have l0: "links_ok ?st0"
        using less.prems seteq by (simp add: links_ok_def)
      have "unseen grid ?st0 \<subseteq> unseen grid st"
        using seteq by (auto simp: unseen_def)
      then have "card (unseen grid ?st0) \<le> card (unseen grid st)"
        by (intro card_mono finite_unseen)
      then have m0: "search_measure grid ?st0 < search_measure grid st"
        using len by (simp add: search_measure_def)
      have g0: "gScores ?st0 (point current) = Some a" using a by simp
      from relax_all [OF neighbors_differ l0 g0 a(2), of grid gridEnd]
      have l1: "links_ok ?st1" and m1: "search_measure grid ?st1 \<le> search_measure grid ?st0"
        by blast+
      from m0 m1 have "search_measure grid ?st1 < search_measure grid st" by simp
      from less.hyps [OF this l1] obtain r where "astar_loop grid gridEnd gridSize ?st1 = Some r"
        by blast
      then show ?thesis using Cons False
        by (subst astar_loop.simps) simp
    qed
  qed
qed

lemma findPathAStar_returns: "\<exists>path. findPathAStar grid start end_pt gridSize = Some path"
  unfolding findPathAStar_def Let_def
  by (rule astar_loop_returns) (simp add: links_ok_def)

section \<open>Routing a wire twice\<close>

lemma set_routedPath_simps:
  "pins (set_routedPath h this rp) = pins h"
  "wires (set_routedPath h this rp) this = (wires h this)\<lparr>routedPath := rp\<rparr>"
  "w \<noteq> this \<Longrightarrow> wires (set_routedPath h this rp) w = wires h w"
  "set_routedPath (set_routedPath h this rp) this rp' = set_routedPath h this rp'"
  by (simp_all add: set_routedPath_def)

lemma createObstacleGrid_own_path:
  "createObstacleGrid (set_routedPath h this rp) this obstacles existingWires gridSize start end_pt
     = createObstacleGrid h this obstacles existingWires gridSize start end_pt"
proof -
  let ?h' = "set_routedPath h this rp"
  have others: "filter (\<lambda>w. w \<noteq> this \<and> length (routedPath (wires ?h' w)) > 0) existingWires
      = filter (\<lambda>w. w \<noteq> this \<and> length (routedPath (wires h w)) > 0) existingWires"
    by (rule filter_cong) (auto simp: set_routedPath_simps)
  have marks: "foldl (\<lambda>g w. markWirePathInGrid g (routedPath (wires ?h' w)) gridSize ox oy) g0
        (filter (\<lambda>w. w \<noteq> this \<and> length (routedPath (wires h w)) > 0) existingWires)
      = foldl (\<lambda>g w. markWirePathInGrid g (routedPath (wires h w)) gridSize ox oy) g0
        (filter (\<lambda>w. w \<noteq> this \<and> length (routedPath (wires h w)) > 0) existingWires)"
    for ox oy g0
    by (rule foldl_cong) (auto simp: set_routedPath_simps)
  show ?thesis
    unfolding createObstacleGrid_def Let_def others marks ..
qed

lemma calculatePath_own_path:
  "calculatePath (set_routedPath h this rp) this obstacles existingWires gridSize
     = calculatePath h this obstacles existingWires gridSize"
  by (simp add: calculatePath_def createObstacleGrid_own_path set_routedPath_simps Let_def
      split: sum.splits option.splits)

lemma calculatePath_stores:
  "calculatePath h this obstacles existingWires gridSize = Some (Inr (h', path))
     \<Longrightarrow> h' = set_routedPath h this path"
  by (auto simp: calculatePath_def Let_def split: if_splits sum.splits option.splits)

lemma calculatePath_returns:
  "\<exists>r. calculatePath h this obstacles existingWires gridSize = Some r"
proof (cases "bendPoints (wires h this) = []")
  case False
  then show ?thesis by (simp add: calculatePath_def Let_def)
next
  case True
  let ?start = "getPosition (pins h (enterPin (wires h this)))"
  let ?end = "getPosition (pins h (exitPin (wires h this)))"
  show ?thesis
  proof (cases "createObstacleGrid h this obstacles existingWires gridSize ?start ?end")
    case (Inl e)
    with True show ?thesis by (simp add: calculatePath_def Let_def)
  next
    case (Inr grid)
    obtain path where "findPathAStar grid ?start ?end gridSize = Some path"
      using findPathAStar_returns by blast
    with True Inr show ?thesis by (simp add: calculatePath_def Let_def)
  qed
qed

text \<open>
  C8. A call of the router always comes back, with a path or with an error. When it
  returns a path, the store afterwards is the store before with that path as the
  wire's routed path and nothing else changed, and a second call on that store with the
  same obstacles, the same other wires and the same grid size returns the same path
  and leaves the same store.
\<close>

theorem calculatePath_idempotent:
  "\<exists>r. calculatePath h this obstacles existingWires gridSize = Some r \<and>
       (\<forall>h' path. r = Inr (h', path) \<longrightarrow>
          h' = set_routedPath h this path \<and>
          routedPath (wires h' this) = path \<and>
          calculatePath h' this obstacles existingWires gridSize = Some (Inr (h', path)))"
proof -
  obtain r where r: "calculatePath h this obstacles existingWires gridSize = Some r"
    using calculatePath_returns by blast
  have "h' = set_routedPath h this path \<and> routedPath (wires h' this) = path \<and>
        calculatePath h' this obstacles existingWires gridSize = Some (Inr (h', path))"
    if "r = Inr (h', path)" for h' path
  proof -
    from r that have h': "h' = set_routedPath h this path" by (simp add: calculatePath_stores)
    moreover have "routedPath (wires (set_routedPath h this path) this) = path"
      by (simp add: set_routedPath_simps)
    moreover have "calculatePath (set_routedPath h this path) this obstacles existingWires gridSize
        = Some (Inr (h', path))"
      using r that by (simp add: calculatePath_own_path)
    ultimately show ?thesis by simp
  qed
  with r show ?thesis by blast
qed

theorem calculatePath_idempotent_witness:
  "returned_path (calculatePath example_store 0 [example_obstacle] [0, 1] 10)
     = Some (Inr [pt 0 0, pt 100 0])
   \<and> returned_path (calculatePath (set_routedPath example_store 0 [pt 0 0, pt 100 0]) 0
        [example_obstacle] [0, 1] 10)
     = Some (Inr [pt 0 0, pt 100 0])
   \<and> routedPath (wires (set_routedPath example_store 0 [pt 0 0, pt 100 0]) 0) = [pt 0 0, pt 100 0]"
proof -
  have first: "returned_path (calculatePath example_store 0 [example_obstacle] [0, 1] 10)
     = Some (Inr [pt 0 0, pt 100 0])"
    by code_simp
  from calculatePath_idempotent [of example_store 0 "[example_obstacle]" "[0, 1]" 10]
  obtain r where r: "calculatePath example_store 0 [example_obstacle] [0, 1] 10 = Some r"
    and again: "\<forall>h' path. r = Inr (h', path) \<longrightarrow>
          h' = set_routedPath example_store 0 path \<and>
          routedPath (wires h' 0) = path \<and>
          calculatePath h' 0 [example_obstacle] [0, 1] 10 = Some (Inr (h', path))"
    by blast
  from first r obtain h' where h': "r = Inr (h', [pt 0 0, pt 100 0])"
    by (cases r) (auto simp: returned_path_def)
  with again have "h' = set_routedPath example_store 0 [pt 0 0, pt 100 0]"
    and "routedPath (wires h' 0) = [pt 0 0, pt 100 0]"
    and "calculatePath h' 0 [example_obstacle] [0, 1] 10 = Some (Inr (h', [pt 0 0, pt 100 0]))"
    by blast+
  with first show ?thesis by (simp add: returned_path_def)
qed

end
